theory Spec2Isabelle
  imports Main "HOL-Library.Word"
begin

section \<open>Sequence identifiers (db/sequence\_id.go)\<close>

type_synonym uint64 = "64 word"

text \<open>Times and durations are nanosecond counts.\<close>

type_synonym time = int

text \<open>
  Go errors as values. \<open>ErrSyntax\<close> and \<open>ErrRange\<close> are the two errors of
  \<^verbatim>\<open>strconv.ParseUint\<close>; \<open>HTTPError\<close> is \<^verbatim>\<open>base.HTTPErrorf(status, message)\<close>;
  \<open>ErrorString\<close> is \<^verbatim>\<open>errors.New(message)\<close>.
\<close>

datatype error = ErrSyntax | ErrRange | HTTPError nat string | ErrorString string

datatype SequenceType = IntSequenceType | ClockSequenceType

text \<open>A sequence clock is seen by this file only through its hashed value.\<close>

datatype SequenceClock = SequenceClock (GetHashedValue: string)

record SequenceID =
  SeqType :: SequenceType
  TriggeredBy :: uint64
  LowSeq :: uint64
  Seq :: uint64
  Clock :: "SequenceClock option"
  TriggeredByClock :: "SequenceClock option"
  vbNo :: "16 word"

text \<open>The Go zero value \<^verbatim>\<open>SequenceID{}\<close>.\<close>

definition zeroSequenceID :: SequenceID where
  "zeroSequenceID =
     \<lparr>SeqType = IntSequenceType, TriggeredBy = 0, LowSeq = 0, Seq = 0,
      Clock = None, TriggeredByClock = None, vbNo = 0\<rparr>"

subsection \<open>Decimal text of unsigned integers (strconv, fmt)\<close>

text \<open>
  \<^verbatim>\<open>strconv.FormatUint(v, 10)\<close> and the verb \<^verbatim>\<open>%d\<close> of \<^verbatim>\<open>fmt.Sprintf\<close> on an
  unsigned integer: the decimal digits, most significant first, no sign, no leading zero.
  As in the library, a digit is looked up in the table of digit characters.
\<close>

definition digitChar :: "nat \<Rightarrow> char" where
  "digitChar d = ''0123456789'' ! d"

fun digitsOf :: "nat \<Rightarrow> string" where
  "digitsOf n =
     (if n < 10 then [digitChar n]
      else digitsOf (n div 10) @ [digitChar (n mod 10)])"

declare digitsOf.simps [simp del]

definition FormatUint :: "'a::len word \<Rightarrow> string" where
  "FormatUint v = digitsOf (unat v)"

definition isDigit :: "char \<Rightarrow> bool" where
  "isDigit c = (48 \<le> (of_char c :: nat) \<and> (of_char c :: nat) \<le> 57)"

definition digitVal :: "char \<Rightarrow> nat" where
  "digitVal c = of_char c - 48"

text \<open>
  \<^verbatim>\<open>strconv.ParseUint(s, 10, 64)\<close>. The loop reads the bytes left to right; a byte that
  is not a decimal digit stops it with a syntax error, and a value that leaves the 64 bits
  stops it with a range error. The accumulator \<open>n\<close> is the value read so far; the two
  overflow tests of the library (\<^verbatim>\<open>n >= cutoff\<close>, and \<^verbatim>\<open>n1 < n || n1 > maxVal\<close> after
  \<^verbatim>\<open>n1 := n*10 + d\<close>) are written on the unbounded value.
\<close>

definition maxUint64 :: nat where
  "maxUint64 = 18446744073709551615"

definition cutoff64 :: nat where
  "cutoff64 = maxUint64 div 10 + 1"

fun parseUintLoop :: "nat \<Rightarrow> string \<Rightarrow> error + nat" where
  "parseUintLoop n [] = Inr n"
| "parseUintLoop n (c # cs) =
     (if \<not> isDigit c then Inl ErrSyntax
      else if n \<ge> cutoff64 then Inl ErrRange
      else if n * 10 + digitVal c > maxUint64 then Inl ErrRange
      else parseUintLoop (n * 10 + digitVal c) cs)"

text \<open>Go returns the value and the error together: 0 with a syntax error, the largest
  value with a range error.\<close>

definition ParseUint :: "string \<Rightarrow> uint64 \<times> error option" where
  "ParseUint s =
     (if s = [] then (0, Some ErrSyntax)
      else case parseUintLoop 0 s of
             Inr n \<Rightarrow> (of_nat n, None)
           | Inl ErrRange \<Rightarrow> (of_nat maxUint64, Some ErrRange)
           | Inl e \<Rightarrow> (0, Some e))"

text \<open>\<^verbatim>\<open>strings.Split(s, sep)\<close> for a separator of one byte: one more component than
  there are separators in \<open>s\<close>.\<close>

fun Split :: "string \<Rightarrow> char \<Rightarrow> string list" where
  "Split [] sep = [[]]"
| "Split (c # cs) sep =
     (if c = sep then [] # Split cs sep
      else (case Split cs sep of
              x # xs \<Rightarrow> (c # x) # xs
            | [] \<Rightarrow> [[c]]))"

subsection \<open>Formatting\<close>

definition intSeqToString :: "SequenceID \<Rightarrow> string" where
  "intSeqToString s =
     (if LowSeq s > 0 \<and> LowSeq s < Seq s then
        (if TriggeredBy s > 0 then
           FormatUint (LowSeq s) @ '':'' @ FormatUint (TriggeredBy s) @ '':'' @ FormatUint (Seq s)
         else
           FormatUint (LowSeq s) @ ''::'' @ FormatUint (Seq s))
      else if TriggeredBy s > 0 then
        FormatUint (TriggeredBy s) @ '':'' @ FormatUint (Seq s)
      else
        FormatUint (Seq s))"

definition clockSeqToString :: "SequenceID \<Rightarrow> string" where
  "clockSeqToString s =
     (case TriggeredByClock s of
        Some tc \<Rightarrow> GetHashedValue tc @ '':'' @ FormatUint (vbNo s) @ ''.'' @ FormatUint (Seq s)
      | None \<Rightarrow>
         (case Clock s of
            Some c \<Rightarrow> GetHashedValue c
          | None \<Rightarrow> FormatUint (vbNo s) @ ''.'' @ FormatUint (Seq s)))"

definition String :: "SequenceID \<Rightarrow> string" where
  "String s =
     (if SeqType s = IntSequenceType then intSeqToString s else clockSeqToString s)"

subsection \<open>Parsing\<close>

definition ParseIntSequenceComponent :: "string \<Rightarrow> bool \<Rightarrow> uint64 \<times> error option" where
  "ParseIntSequenceComponent component allowEmpty =
     (if allowEmpty \<and> component = [] then (0, None) else ParseUint component)"

text \<open>
  The result is the pair Go returns: the (possibly partly filled) identifier and the error.
  The named results \<open>s\<close> and \<open>err\<close> start at their zero values; an early \<^verbatim>\<open>return\<close>
  inside a branch returns the error of the component as it is, and the branches that fall
  through reach the final test, which replaces any error by the 400 error.
\<close>

definition invalidSequence :: error where
  "invalidSequence = HTTPError 400 ''Invalid sequence''"

definition parseIntegerSequenceID :: "string \<Rightarrow> SequenceID \<times> error option" where
  "parseIntegerSequenceID str =
     (if str = [] then (zeroSequenceID, None)
      else
        let s = zeroSequenceID\<lparr>SeqType := IntSequenceType\<rparr>;
            components = Split str (CHR '':'')
        in if length components = 1 then
             (case ParseIntSequenceComponent (components ! 0) False of
                (v, err) \<Rightarrow>
                  (s\<lparr>Seq := v\<rparr>, if err \<noteq> None then Some invalidSequence else err))
           else if length components = 2 then
             (case ParseIntSequenceComponent (components ! 0) False of
                (t, err) \<Rightarrow>
                  if err \<noteq> None then (s\<lparr>TriggeredBy := t\<rparr>, err)
                  else
                    (case ParseIntSequenceComponent (components ! 1) False of
                       (v, err) \<Rightarrow>
                         if err \<noteq> None then (s\<lparr>TriggeredBy := t, Seq := v\<rparr>, err)
                         else (s\<lparr>TriggeredBy := t, Seq := v\<rparr>, None)))
           else if length components = 3 then
             (case ParseIntSequenceComponent (components ! 0) False of
                (l, err) \<Rightarrow>
                  if err \<noteq> None then (s\<lparr>LowSeq := l\<rparr>, err)
                  else
                    (case ParseIntSequenceComponent (components ! 1) True of
                       (t, err) \<Rightarrow>
                         if err \<noteq> None then (s\<lparr>LowSeq := l, TriggeredBy := t\<rparr>, err)
                         else
                           (case ParseIntSequenceComponent (components ! 2) False of
                              (v, err) \<Rightarrow>
                                if err \<noteq> None
                                then (s\<lparr>LowSeq := l, TriggeredBy := t, Seq := v\<rparr>, err)
                                else (s\<lparr>LowSeq := l, TriggeredBy := t, Seq := v\<rparr>, None))))
           else (s, Some invalidSequence))"

subsection \<open>The wire forms, as the specification words them\<close>

text \<open>
  A component of a wire form is the decimal text of a 64-bit unsigned value: at least one
  digit, only digits, and a value that fits.
\<close>

definition decimalValue :: "nat \<Rightarrow> string \<Rightarrow> nat" where
  "decimalValue n cs = foldl (\<lambda>n c. n * 10 + digitVal c) n cs"

definition isUintText :: "string \<Rightarrow> bool" where
  "isUintText c = (c \<noteq> [] \<and> list_all isDigit c \<and> decimalValue 0 c \<le> maxUint64)"

text \<open>The three forms: \<open>seq\<close>, \<open>triggeredBy:seq\<close> and \<open>lowSeq:triggeredBy:seq\<close>,
  the last with \<open>triggeredBy\<close> possibly empty.\<close>

definition recognizedForm :: "string \<Rightarrow> bool" where
  "recognizedForm str =
     (case Split str (CHR '':'') of
        [a] \<Rightarrow> isUintText a
      | [t, a] \<Rightarrow> isUintText t \<and> isUintText a
      | [l, t, a] \<Rightarrow> isUintText l \<and> (t = [] \<or> isUintText t) \<and> isUintText a
      | _ \<Rightarrow> False)"

text \<open>
  The encoding as the specification states it: a \<open>lowSeq\<close> that is not below \<open>seq\<close>
  counts as zero, and the form follows from which of \<open>lowSeq\<close> and \<open>triggeredBy\<close>
  are zero.
\<close>

definition specEncode :: "SequenceID \<Rightarrow> string" where
  "specEncode s =
     (let l = (if LowSeq s \<ge> Seq s then 0 else LowSeq s);
          t = TriggeredBy s
      in if l = 0 \<and> t = 0 then FormatUint (Seq s)
         else if l = 0 then FormatUint t @ '':'' @ FormatUint (Seq s)
         else if t = 0 then FormatUint l @ ''::'' @ FormatUint (Seq s)
         else FormatUint l @ '':'' @ FormatUint t @ '':'' @ FormatUint (Seq s))"

text \<open>An integer sequence identifier: the integer kind, with none of the fields of the
  clock kind set.\<close>

definition isIntSequenceID :: "SequenceID \<Rightarrow> bool" where
  "isIntSequenceID s =
     (SeqType s = IntSequenceType \<and> Clock s = None \<and> TriggeredByClock s = None \<and> vbNo s = 0)"

subsection \<open>Ordering\<close>

definition SafeSequence :: "SequenceID \<Rightarrow> uint64" where
  "SafeSequence s = (if LowSeq s > 0 then LowSeq s else Seq s)"

definition Before :: "SequenceID \<Rightarrow> SequenceID \<Rightarrow> bool" where
  "Before s s2 =
     (if TriggeredBy s = TriggeredBy s2 then SafeSequence s < SafeSequence s2
      else if TriggeredBy s = 0 then SafeSequence s < TriggeredBy s2
      else if TriggeredBy s2 = 0 then TriggeredBy s \<le> SafeSequence s2
      else TriggeredBy s < TriggeredBy s2)"

section \<open>The skipped sequence list (db/change\_cache.go)\<close>

record SkippedSequence =
  seq :: uint64
  timeAdded :: time

text \<open>
  \<^verbatim>\<open>SkippedSequenceList\<close> is a \<^verbatim>\<open>container/list\<close> with a map from a sequence to its list
  element. The list is held front to back; the map gives the element stored for a
  sequence, and removing that element from the list removes its first occurrence.
\<close>

record SkippedSequenceList =
  skippedList :: "SkippedSequence list"
  skippedMap :: "uint64 \<rightharpoonup> SkippedSequence"

definition NewSkippedSequenceList :: SkippedSequenceList where
  "NewSkippedSequenceList = \<lparr>skippedList = [], skippedMap = Map.empty\<rparr>"

definition getOldest :: "SkippedSequenceList \<Rightarrow> uint64" where
  "getOldest l = (case skippedList l of [] \<Rightarrow> 0 | firstElement # _ \<Rightarrow> seq firstElement)"

definition Remove :: "uint64 \<Rightarrow> SkippedSequenceList \<Rightarrow> SkippedSequenceList \<times> error option" where
  "Remove x l =
     (case skippedMap l x of
        Some listElement \<Rightarrow>
          (l\<lparr>skippedList := remove1 listElement (skippedList l),
             skippedMap := (skippedMap l)(x := None)\<rparr>, None)
      | None \<Rightarrow> (l, Some (ErrorString ''Value not found'')))"

definition Contains :: "uint64 \<Rightarrow> SkippedSequenceList \<Rightarrow> bool" where
  "Contains x l = (skippedMap l x \<noteq> None)"

definition pushError :: error where
  "pushError = ErrorString (''Can'' @ [CHR 0x27] @ ''t push sequence lower than existing maximum'')"

definition Push :: "SkippedSequence \<Rightarrow> SkippedSequenceList \<Rightarrow> SkippedSequenceList \<times> error option" where
  "Push x l =
     (let validPush =
            (case skippedList l of
               [] \<Rightarrow> True
             | _ # _ \<Rightarrow> seq (last (skippedList l)) < seq x)
      in if validPush then
           (l\<lparr>skippedList := skippedList l @ [x],
              skippedMap := (skippedMap l)(seq x \<mapsto> x)\<rparr>, None)
         else (l, Some pushError))"

text \<open>\<^verbatim>\<open>time.Since(t)\<close> is \<open>now - t\<close>, with \<open>now\<close> the reading of the clock.\<close>

definition getOlderThan :: "time \<Rightarrow> time \<Rightarrow> SkippedSequenceList \<Rightarrow> uint64 list" where
  "getOlderThan now skippedExpiry l =
     map seq (takeWhile (\<lambda>skippedSeq. now - timeAdded skippedSeq > skippedExpiry) (skippedList l))"

text \<open>A run of the two operations that change the list, from the left.\<close>

datatype SkippedOp = OpPush SkippedSequence | OpRemove uint64

fun applySkippedOp :: "SkippedOp \<Rightarrow> SkippedSequenceList \<Rightarrow> SkippedSequenceList" where
  "applySkippedOp (OpPush x) l = fst (Push x l)"
| "applySkippedOp (OpRemove x) l = fst (Remove x l)"

definition runSkippedOps :: "SkippedOp list \<Rightarrow> SkippedSequenceList \<Rightarrow> SkippedSequenceList" where
  "runSkippedOps ops l = fold applySkippedOp ops l"

section \<open>Log entries and channel caches\<close>

text \<open>
  Modelled from the spec: the log entry (the package \<^verbatim>\<open>channels\<close> that declares
  \<^verbatim>\<open>LogEntry\<close> and \<^verbatim>\<open>ChannelRemoval\<close> is not among the sources). These are the fields
  that the change cache reads and writes. A channel of the entry maps to \<open>None\<close> when the
  document is in the channel and to its removal (sequence and revision) when it was removed
  from it.
\<close>

record ChannelRemoval =
  RemovalSeq :: uint64
  RemovalRevID :: string

record LogEntry =
  Sequence :: uint64
  DocID :: string
  RevID :: string
  Flags :: "8 word"
  TimeReceived :: time
  TimeSaved :: time
  Channels :: "(string \<times> ChannelRemoval option) list"
  Skipped :: bool

definition placeholder :: "uint64 \<Rightarrow> time \<Rightarrow> LogEntry" where
  "placeholder sequence now =
     \<lparr>Sequence = sequence, DocID = [], RevID = [], Flags = 0, TimeReceived = now,
      TimeSaved = 0, Channels = [], Skipped = False\<rparr>"

text \<open>
  Modelled from the spec: the per-channel cache (db/channel\_cache.go is not among the
  sources). The spec gives it a \<open>validFrom\<close> sequence, a buffer of entries sorted by
  ascending sequence, and a late-sequence queue.
\<close>

record channelCache =
  channelName :: string
  validFrom :: uint64
  logs :: "LogEntry list"
  lateLogs :: "LogEntry list"

text \<open>Modelled from the spec: the configured maximal length and maximal age of a
  channel cache.\<close>

record ChannelCacheOptions =
  ChannelCacheMaxLength :: nat
  ChannelCacheAge :: time

text \<open>Modelled from the spec: a new channel cache is empty and starts at \<open>validFrom\<close>.\<close>

definition newChannelCacheWithOptions :: "string \<Rightarrow> uint64 \<Rightarrow> channelCache" where
  "newChannelCacheWithOptions name from =
     \<lparr>channelName = name, validFrom = from, logs = [], lateLogs = []\<rparr>"

text \<open>Modelled from the spec: \<open>addToCache(entry, isRemoval)\<close> inserts the entry in
  sequence order into the buffer.\<close>

definition cache_addToCache :: "LogEntry \<Rightarrow> bool \<Rightarrow> channelCache \<Rightarrow> channelCache" where
  "cache_addToCache entry isRemoval cache =
     cache\<lparr>logs := insort_key Sequence entry (logs cache)\<rparr>"

text \<open>Modelled from the spec: \<open>AddLateSequence(entry)\<close> appends to the late queue; the tag
  of an entry is its position in the queue.\<close>

definition cache_AddLateSequence :: "LogEntry \<Rightarrow> channelCache \<Rightarrow> channelCache" where
  "cache_AddLateSequence entry cache = cache\<lparr>lateLogs := lateLogs cache @ [entry]\<rparr>"

text \<open>Modelled from the spec: \<open>pruneCache()\<close> drops entries beyond the configured
  maximal length or older than the maximal age, from the oldest, and advances
  \<open>validFrom\<close> past each entry it drops.\<close>

fun pruneLogs :: "ChannelCacheOptions \<Rightarrow> time \<Rightarrow> uint64 \<Rightarrow> LogEntry list \<Rightarrow> uint64 \<times> LogEntry list" where
  "pruneLogs opts now from [] = (from, [])"
| "pruneLogs opts now from (entry # rest) =
     (if length (entry # rest) > ChannelCacheMaxLength opts
         \<or> now - TimeReceived entry > ChannelCacheAge opts
      then pruneLogs opts now (Sequence entry + 1) rest
      else (from, entry # rest))"

definition cache_pruneCache :: "ChannelCacheOptions \<Rightarrow> time \<Rightarrow> channelCache \<Rightarrow> channelCache" where
  "cache_pruneCache opts now cache =
     (case pruneLogs opts now (validFrom cache) (logs cache) of
        (from, kept) \<Rightarrow> cache\<lparr>validFrom := from, logs := kept\<rparr>)"

section \<open>The change cache (db/change\_cache.go)\<close>

record CacheOptions =
  ChannelOptions :: ChannelCacheOptions
  CachePendingSeqMaxWait :: time
  CachePendingSeqMaxNum :: int
  CacheSkippedSeqMaxWait :: time

text \<open>
  The fields under the lock of the cache. \<open>channelCaches\<close> is the map of an initialised
  cache (\<^verbatim>\<open>Init\<close> and \<^verbatim>\<open>Clear\<close> make it, and nothing sets it to nil). \<open>pendingLogs\<close> is
  the priority queue of \<^verbatim>\<open>container/heap\<close>: the cache reads its length and its first
  element, which the heap keeps least in sequence, and pushes and pops; the model holds
  the entries in ascending order of sequence. \<open>notified\<close> is the record of the calls
  of the listener \<^verbatim>\<open>notifyChange\<close>, oldest first.
\<close>

record changeCache =
  logsDisabled :: bool
  nextSequence :: uint64
  initialSequence :: uint64
  receivedSeqs :: "uint64 set"
  pendingLogs :: "LogEntry list"
  channelCaches :: "string \<rightharpoonup> channelCache"
  stopped :: bool
  skippedSeqs :: SkippedSequenceList
  options :: CacheOptions
  notified :: "string set list"

definition DefaultCachePendingSeqMaxNum :: int where
  "DefaultCachePendingSeqMaxNum = 10000"

definition DefaultCachePendingSeqMaxWait :: time where
  "DefaultCachePendingSeqMaxWait = 5 * 1000000000"

definition DefaultSkippedSeqMaxWait :: time where
  "DefaultSkippedSeqMaxWait = 60 * 60 * 1000000000"

definition EnableStarChannelLog :: bool where
  "EnableStarChannelLog = True"

text \<open>\<^verbatim>\<open>channels.UserStarChannel\<close>, the wildcard channel.\<close>

definition UserStarChannel :: string where
  "UserStarChannel = ''*''"

subsection \<open>The priority queue of pending entries\<close>

definition heap_Push :: "LogEntry \<Rightarrow> LogEntry list \<Rightarrow> LogEntry list" where
  "heap_Push x h = insort_key Sequence x h"

definition heap_Pop :: "LogEntry list \<Rightarrow> LogEntry list" where
  "heap_Pop h = tl h"

subsection \<open>The skipped sequence queue of the cache\<close>

definition RemoveSkipped :: "uint64 \<Rightarrow> changeCache \<Rightarrow> changeCache" where
  "RemoveSkipped x c = c\<lparr>skippedSeqs := fst (Remove x (skippedSeqs c))\<rparr>"

definition WasSkipped :: "uint64 \<Rightarrow> changeCache \<Rightarrow> bool" where
  "WasSkipped x c = Contains x (skippedSeqs c)"

text \<open>\<^verbatim>\<open>PushSkipped\<close> drops the error of \<^verbatim>\<open>Push\<close>.\<close>

definition PushSkipped :: "time \<Rightarrow> uint64 \<Rightarrow> changeCache \<Rightarrow> changeCache" where
  "PushSkipped now sequence c =
     c\<lparr>skippedSeqs := fst (Push \<lparr>seq = sequence, timeAdded = now\<rparr> (skippedSeqs c))\<rparr>"

definition GetSkippedSequencesOlderThanMaxWait :: "time \<Rightarrow> changeCache \<Rightarrow> uint64 list" where
  "GetSkippedSequencesOlderThanMaxWait now c =
     getOlderThan now (CacheSkippedSeqMaxWait (options c)) (skippedSeqs c)"

subsection \<open>Adding to the channel caches\<close>

text \<open>\<^verbatim>\<open>_getChannelCache\<close>: the cache of the channel, made and stored when there is none.\<close>

definition getChannelCache :: "string \<Rightarrow> changeCache \<Rightarrow> channelCache \<times> changeCache" where
  "getChannelCache name c =
     (case channelCaches c name of
        Some cache \<Rightarrow> (cache, c)
      | None \<Rightarrow>
          (let validFrom = initialSequence c + 1;
               cache = newChannelCacheWithOptions name validFrom
           in (cache, c\<lparr>channelCaches := (channelCaches c)(name \<mapsto> cache)\<rparr>)))"

text \<open>One channel of the loop of \<^verbatim>\<open>_addToCache\<close>: the entry goes into the cache of the
  channel, and into its late queue when the entry was skipped.\<close>

definition addToChannel :: "LogEntry \<Rightarrow> string \<Rightarrow> bool \<Rightarrow> changeCache \<Rightarrow> changeCache" where
  "addToChannel change name isRemoval c =
     (case getChannelCache name c of
        (cache, c1) \<Rightarrow>
          (let cache1 = cache_addToCache change isRemoval cache;
               cache2 = (if Skipped change then cache_AddLateSequence change cache1 else cache1)
           in c1\<lparr>channelCaches := (channelCaches c1)(name \<mapsto> cache2)\<rparr>))"

fun addToChannels ::
  "LogEntry \<Rightarrow> (string \<times> ChannelRemoval option) list \<Rightarrow> string set \<times> changeCache
     \<Rightarrow> string set \<times> changeCache" where
  "addToChannels change [] (addedTo, c) = (addedTo, c)"
| "addToChannels change ((name, removal) # ch) (addedTo, c) =
     (if removal = None \<or> map_option RemovalSeq removal = Some (Sequence change)
      then addToChannels change ch
             (insert name addedTo, addToChannel change name (removal \<noteq> None) c)
      else addToChannels change ch (addedTo, c))"

text \<open>\<^verbatim>\<open>_addToCache\<close>. The channels of the entry are cleared before it is stored.\<close>

definition addToCache :: "LogEntry \<Rightarrow> changeCache \<Rightarrow> string set \<times> changeCache" where
  "addToCache change c =
     (let c1 = (if Sequence change \<ge> nextSequence c
                then c\<lparr>nextSequence := Sequence change + 1\<rparr> else c)
      in if DocID change = [] then ({}, c1)
         else
           let ch = Channels change;
               change1 = change\<lparr>Channels := []\<rparr>;
               (addedTo, c2) = addToChannels change1 ch ({}, c1)
           in if EnableStarChannelLog
              then (insert UserStarChannel addedTo, addToChannel change1 UserStarChannel False c2)
              else (addedTo, c2))"

subsection \<open>Draining the pending entries\<close>

text \<open>
  \<^verbatim>\<open>_addPendingLogs\<close>. \<open>now\<close> is the reading of the clock for \<^verbatim>\<open>time.Since\<close> and for
  the time at which a sequence is pushed on the skipped queue. The loop ends: popping
  shortens the queue, and skipping moves \<open>nextSequence\<close> one step closer to the sequence
  at the front of the queue.
\<close>

function addPendingLogsLoop :: "time \<Rightarrow> string set \<Rightarrow> changeCache \<Rightarrow> string set \<times> changeCache" where
  "addPendingLogsLoop now changedChannels c =
     (case pendingLogs c of
        [] \<Rightarrow> (changedChannels, c)
      | change # rest \<Rightarrow>
          if Sequence change = nextSequence c then
            addPendingLogsLoop now
              (changedChannels \<union> fst (addToCache change (c\<lparr>pendingLogs := heap_Pop (pendingLogs c)\<rparr>)))
              (snd (addToCache change (c\<lparr>pendingLogs := heap_Pop (pendingLogs c)\<rparr>)))
          else if int (length (pendingLogs c)) > CachePendingSeqMaxNum (options c)
                  \<or> now - TimeReceived change \<ge> CachePendingSeqMaxWait (options c) then
            addPendingLogsLoop now changedChannels
              ((PushSkipped now (nextSequence c) c)\<lparr>nextSequence := nextSequence c + 1\<rparr>)
          else (changedChannels, c))"
  by pat_completeness auto

termination
proof (relation "measures [\<lambda>(now, changed, c). length (pendingLogs c),
                           \<lambda>(now, changed, c). unat (Sequence (hd (pendingLogs c)) - nextSequence c)]")
  show "wf (measures [\<lambda>(now, changed, c). length (pendingLogs c),
                      \<lambda>(now :: time, changed :: string set, c).
                         unat (Sequence (hd (pendingLogs c)) - nextSequence c)])"
    by simp
next
  fix now :: time and changedChannels :: "string set" and c :: changeCache and change rest
  assume pending: "pendingLogs c = change # rest"
  have chan: "pendingLogs (addToChannel e name r d) = pendingLogs d" for e name r d
    by (simp add: addToChannel_def getChannelCache_def Let_def split: option.split)
  have chans: "pendingLogs (snd (addToChannels e ch acc)) = pendingLogs (snd acc)" for e ch acc
  proof (induction ch arbitrary: acc)
    case Nil
    then show ?case by (cases acc) simp
  next
    case (Cons a ch)
    then show ?case by (cases acc; cases a) (simp add: chan)
  qed
  have "pendingLogs (snd (addToCache change d)) = pendingLogs d" for d :: changeCache
  proof -
    let ?c1 = "if Sequence change \<ge> nextSequence d
               then d\<lparr>nextSequence := Sequence change + 1\<rparr> else d"
    obtain a c2 where r:
      "addToChannels (change\<lparr>Channels := []\<rparr>) (Channels change) ({}, ?c1) = (a, c2)"
      by force
    have "pendingLogs c2 = pendingLogs ?c1"
      using chans [of "change\<lparr>Channels := []\<rparr>" "Channels change" "({}, ?c1)"] r
      by simp
    then show ?thesis
      using r by (simp add: addToCache_def Let_def chan)
  qed
  then show "((now, changedChannels \<union> fst (addToCache change (c\<lparr>pendingLogs := heap_Pop (pendingLogs c)\<rparr>)),
               snd (addToCache change (c\<lparr>pendingLogs := heap_Pop (pendingLogs c)\<rparr>))),
              (now, changedChannels, c))
            \<in> measures [\<lambda>(now, changed, c). length (pendingLogs c),
                          \<lambda>(now, changed, c). unat (Sequence (hd (pendingLogs c)) - nextSequence c)]"
    using pending by (simp add: heap_Pop_def)
next
  fix now :: time and changedChannels :: "string set" and c :: changeCache and change rest
  assume pending: "pendingLogs c = change # rest"
    and notNext: "Sequence change \<noteq> nextSequence c"
  have "Sequence change - nextSequence c \<noteq> 0"
    using notNext by simp
  then have "unat (Sequence change - nextSequence c - 1) < unat (Sequence change - nextSequence c)"
    by (simp add: unat_minus_one unat_gt_0)
  moreover have "Sequence change - (nextSequence c + 1) = Sequence change - nextSequence c - 1"
    by (simp add: algebra_simps)
  ultimately have "unat (Sequence change - (nextSequence c + 1))
                     < unat (Sequence change - nextSequence c)"
    by (simp only:)
  then show "((now, changedChannels, (PushSkipped now (nextSequence c) c)\<lparr>nextSequence := nextSequence c + 1\<rparr>),
              (now, changedChannels, c))
            \<in> measures [\<lambda>(now, changed, c). length (pendingLogs c),
                          \<lambda>(now, changed, c). unat (Sequence (hd (pendingLogs c)) - nextSequence c)]"
    using pending by (simp add: PushSkipped_def)
qed

declare addPendingLogsLoop.simps [simp del]

definition addPendingLogs :: "time \<Rightarrow> changeCache \<Rightarrow> string set \<times> changeCache" where
  "addPendingLogs now c = addPendingLogsLoop now {} c"

subsection \<open>Handling an entry\<close>

text \<open>
  \<^verbatim>\<open>processEntry\<close>, under the lock of the cache. The result is the set of changed channels
  (the nil set of Go is the empty set) and the cache after the call. \<open>now\<close> is the reading
  of the clock during the call; the entry carries the reading at which it was made in
  \<open>TimeReceived\<close>.
\<close>

definition processEntry :: "time \<Rightarrow> LogEntry \<Rightarrow> changeCache \<Rightarrow> string set \<times> changeCache" where
  "processEntry now change c =
     (if logsDisabled c then ({}, c)
      else
        let sequence = Sequence change
        in if sequence \<in> receivedSeqs c then ({}, c)
           else
             let c1 = c\<lparr>receivedSeqs := insert sequence (receivedSeqs c)\<rparr>
             in if sequence = nextSequence c1 \<or> nextSequence c1 = 0 then
                  (case addToCache change c1 of
                     (changedChannels, c2) \<Rightarrow>
                       (case addPendingLogs now c2 of
                          (drained, c3) \<Rightarrow> (changedChannels \<union> drained, c3)))
                else if sequence > nextSequence c1 then
                  (let c2 = c1\<lparr>pendingLogs := heap_Push change (pendingLogs c1)\<rparr>;
                       numPending = int (length (pendingLogs c2))
                   in if numPending > CachePendingSeqMaxNum (options c2)
                      then addPendingLogs now c2
                      else ({}, c2))
                else if sequence > initialSequence c1 then
                  (let change1 = (if \<not> WasSkipped sequence c1 then change
                                  else change\<lparr>Skipped := True\<rparr>)
                   in case addToCache change1 c1 of
                        (changedChannels, c2) \<Rightarrow> (changedChannels, RemoveSkipped sequence c2))
                else ({}, c1))"

text \<open>A run of \<^verbatim>\<open>processEntry\<close> over entries, each with the reading of the clock of its call.\<close>

definition processEntries :: "(time \<times> LogEntry) list \<Rightarrow> changeCache \<Rightarrow> changeCache" where
  "processEntries es c = fold (\<lambda>(now, change) c. snd (processEntry now change c)) es c"

definition LastSequence :: "changeCache \<Rightarrow> uint64" where
  "LastSequence c = nextSequence c - 1"

text \<open>\<^verbatim>\<open>_setInitialSequence\<close>.\<close>

definition setInitialSequence :: "uint64 \<Rightarrow> changeCache \<Rightarrow> changeCache" where
  "setInitialSequence initial c = c\<lparr>initialSequence := initial, nextSequence := initial + 1\<rparr>"

text \<open>The listener is called with a set of changed channels that is not empty.\<close>

definition notifyChange :: "string set \<Rightarrow> changeCache \<Rightarrow> changeCache" where
  "notifyChange changedChannels c =
     (if changedChannels \<noteq> {} then c\<lparr>notified := notified c @ [changedChannels]\<rparr> else c)"

text \<open>\<^verbatim>\<open>Clear\<close>; \<open>lastSequence\<close> is what \<^verbatim>\<open>context.LastSequence()\<close> returns, a value and
  an error.\<close>

definition Clear :: "uint64 \<times> error option \<Rightarrow> changeCache \<Rightarrow> changeCache \<times> error option" where
  "Clear lastSequence c =
     (case lastSequence of
        (v, Some err) \<Rightarrow> (c\<lparr>initialSequence := v\<rparr>, Some err)
      | (v, None) \<Rightarrow>
          (c\<lparr>initialSequence := v, channelCaches := Map.empty, pendingLogs := []\<rparr>, None))"

text \<open>\<^verbatim>\<open>CleanUp\<close> of an initialised cache, whose map of channel caches is not nil: the test
  \<^verbatim>\<open>c.channelCaches == nil\<close> at its start fails, and it returns \<open>True\<close>.\<close>

definition CleanUp :: "time \<Rightarrow> changeCache \<Rightarrow> bool \<times> changeCache" where
  "CleanUp now c =
     (case addPendingLogs now c of
        (changedChannels, c1) \<Rightarrow>
          (let c2 = notifyChange changedChannels c1
           in (True,
               c2\<lparr>channelCaches :=
                    (\<lambda>channelName.
                       map_option (cache_pruneCache (ChannelOptions (options c2)) now)
                         (channelCaches c2 channelName))\<rparr>)))"

subsection \<open>Unused sequences\<close>

definition releaseUnusedSequence :: "time \<Rightarrow> uint64 \<Rightarrow> changeCache \<Rightarrow> changeCache" where
  "releaseUnusedSequence now sequence c =
     (case processEntry now (placeholder sequence now) c of
        (changedChannels, c1) \<Rightarrow> notifyChange changedChannels c1)"

text \<open>
  The loop of \<^verbatim>\<open>processUnusedSequenceRange\<close>,
  \<^verbatim>\<open>for seq := fromSequence; seq <= toSequence; seq++\<close>, on 64-bit counters: with
  \<open>toSequence\<close> the largest value the test never fails, so the loop is a partial
  function. \<open>clock seq\<close> is the reading of the clock in the round of \<open>seq\<close>.
\<close>

partial_function (option) releaseUnusedRange ::
  "(uint64 \<Rightarrow> time) \<Rightarrow> uint64 \<Rightarrow> uint64 \<Rightarrow> changeCache \<Rightarrow> changeCache option" where
  "releaseUnusedRange clock sequence toSequence c =
     (if sequence \<le> toSequence
      then releaseUnusedRange clock (sequence + 1) toSequence
             (releaseUnusedSequence (clock sequence) sequence c)
      else Some c)"

definition processUnusedSequenceRange ::
  "(uint64 \<Rightarrow> time) \<Rightarrow> string \<Rightarrow> changeCache \<Rightarrow> changeCache option" where
  "processUnusedSequenceRange clock docID c =
     (let sequences = Split docID (CHR '':'')
      in if length sequences \<noteq> 4 then Some c
         else
           (case ParseUint (sequences ! 2) of
              (fromSequence, Some err) \<Rightarrow> Some c
            | (fromSequence, None) \<Rightarrow>
                (case ParseUint (sequences ! 3) of
                   (toSequence, Some err) \<Rightarrow> Some c
                 | (toSequence, None) \<Rightarrow>
                     releaseUnusedRange clock fromSequence toSequence c)))"

subsection \<open>States of the cache\<close>

text \<open>
  What holds of the pending queue between the operations of a cache that was started with
  an empty queue: its sequences are strictly ascending, none is below \<open>nextSequence\<close>,
  each was recorded as received, and the queue is empty while \<open>nextSequence\<close> is zero.
\<close>

definition pendingInv :: "changeCache \<Rightarrow> bool" where
  "pendingInv c =
     (sorted_wrt (<) (map Sequence (pendingLogs c)) \<and>
      list_all (\<lambda>e. nextSequence c \<le> Sequence e \<and> Sequence e \<in> receivedSeqs c) (pendingLogs c) \<and>
      (nextSequence c \<noteq> 0 \<or> pendingLogs c = []))"

text \<open>No entry of the pending queue carries the largest sequence \<open>2^64 - 1\<close>.\<close>

definition pendingBelowMax :: "changeCache \<Rightarrow> bool" where
  "pendingBelowMax c = list_all (\<lambda>e. Sequence e \<noteq> - 1) (pendingLogs c)"

text \<open>An initialised cache, as \<^verbatim>\<open>Init\<close> makes it and \<^verbatim>\<open>Start\<close> sets its sequences.\<close>

definition initCache :: "CacheOptions \<Rightarrow> uint64 \<Rightarrow> changeCache" where
  "initCache opts lastSequence =
     setInitialSequence lastSequence
       \<lparr>logsDisabled = False, nextSequence = 0, initialSequence = 0, receivedSeqs = {},
        pendingLogs = [], channelCaches = Map.empty, stopped = False,
        skippedSeqs = NewSkippedSequenceList, options = opts, notified = []\<rparr>"

definition testOptions :: "int \<Rightarrow> CacheOptions" where
  "testOptions maxNum =
     \<lparr>ChannelOptions = \<lparr>ChannelCacheMaxLength = 500, ChannelCacheAge = 60 * 1000000000\<rparr>,
      CachePendingSeqMaxWait = DefaultCachePendingSeqMaxWait,
      CachePendingSeqMaxNum = maxNum,
      CacheSkippedSeqMaxWait = DefaultSkippedSeqMaxWait\<rparr>"

text \<open>The elements that a run of operations pushes, in the order of the run.\<close>

fun pushedOf :: "SkippedOp list \<Rightarrow> SkippedSequence list" where
  "pushedOf [] = []"
| "pushedOf (OpPush x # ops) = x # pushedOf ops"
| "pushedOf (OpRemove x # ops) = pushedOf ops"


text \<open>The states in which the loop of \<^verbatim>\<open>_addPendingLogs\<close> ends: the queue is empty, or
  its first entry is not the next sequence and the loop is neither over its bound nor
  over its wait.\<close>

definition loopDone :: "time \<Rightarrow> changeCache \<Rightarrow> bool" where
  "loopDone now c =
     (case pendingLogs c of
        [] \<Rightarrow> True
      | change # rest \<Rightarrow>
          Sequence change \<noteq> nextSequence c \<and>
          \<not> (int (length (pendingLogs c)) > CachePendingSeqMaxNum (options c)
               \<or> now - TimeReceived change \<ge> CachePendingSeqMaxWait (options c)))"

text \<open>A clock that reads the same time in every round.\<close>

definition fixedClock :: "time \<Rightarrow> uint64 \<Rightarrow> time" where
  "fixedClock t sequence = t"

section \<open>Properties of the sequence identifier codec\<close>

subsection \<open>Digits\<close>

lemma digit_table:
  "\<forall>d \<in> set [0..<10]. isDigit (digitChar d) \<and> digitVal (digitChar d) = d"
  by code_simp

lemma isDigit_digit: "d < 10 \<Longrightarrow> isDigit (digitChar d)"
  using digit_table by simp

lemma digitVal_digit: "d < 10 \<Longrightarrow> digitVal (digitChar d) = d"
  using digit_table by simp

lemma digitsOf_digits: "c \<in> set (digitsOf n) \<Longrightarrow> isDigit c"
proof (induction n arbitrary: c rule: digitsOf.induct)
  case (1 n)
  show ?case
  proof (cases "n < 10")
    case True
    with "1.prems" show ?thesis
      by (simp add: digitsOf.simps [of n] isDigit_digit)
  next
    case False
    with "1.prems" have "c \<in> set (digitsOf (n div 10)) \<or> c = digitChar (n mod 10)"
      by (auto simp add: digitsOf.simps [of n])
    then show ?thesis
      using "1.IH" [OF False] isDigit_digit [of "n mod 10"] by auto
  qed
qed

lemma digitsOf_nonempty: "digitsOf n \<noteq> []"
  by (simp add: digitsOf.simps [of n])

lemma colon_not_digit: "\<not> isDigit (CHR '':'')"
  by (simp add: isDigit_def)

lemma colon_notin_digitsOf: "CHR '':'' \<notin> set (digitsOf n)"
  using digitsOf_digits colon_not_digit by blast

lemma parseUintLoop_append:
  "parseUintLoop n (xs @ ys) =
     (case parseUintLoop n xs of Inl e \<Rightarrow> Inl e | Inr m \<Rightarrow> parseUintLoop m ys)"
  by (induction xs arbitrary: n) simp_all

lemma parseUintLoop_single:
  assumes "d < 10" "m < cutoff64" "m * 10 + d \<le> maxUint64"
  shows "parseUintLoop m [digitChar d] = Inr (m * 10 + d)"
  using assms by (simp add: isDigit_digit digitVal_digit)

lemma parseUintLoop_digitsOf:
  "n \<le> maxUint64 \<Longrightarrow> parseUintLoop 0 (digitsOf n) = Inr n"
proof (induction n rule: digitsOf.induct)
  case (1 n)
  show ?case
  proof (cases "n < 10")
    case True
    have "0 < cutoff64" by (simp add: cutoff64_def maxUint64_def)
    moreover have "0 * 10 + n \<le> maxUint64" using "1.prems" by simp
    ultimately have "parseUintLoop 0 [digitChar n] = Inr (0 * 10 + n)"
      using True by (rule parseUintLoop_single [rotated])
    then show ?thesis using True
      by (simp add: digitsOf.simps [of n])
  next
    case False
    have le: "n div 10 \<le> maxUint64" using "1.prems" by simp
    have cut: "n div 10 < cutoff64"
      using "1.prems" unfolding cutoff64_def maxUint64_def by arith
    have d: "n mod 10 < 10" by simp
    have eq: "n div 10 * 10 + n mod 10 = n" by simp
    have bound: "n div 10 * 10 + n mod 10 \<le> maxUint64"
      using "1.prems" by (simp only: eq)
    have "parseUintLoop (n div 10) [digitChar (n mod 10)] = Inr (n div 10 * 10 + n mod 10)"
      using d cut bound by (rule parseUintLoop_single)
    then have step: "parseUintLoop (n div 10) [digitChar (n mod 10)] = Inr n"
      by (simp only: eq)
    have "digitsOf n = digitsOf (n div 10) @ [digitChar (n mod 10)]"
      using False by (simp add: digitsOf.simps [of n])
    then show ?thesis
      using "1.IH" [OF False le] step by (simp add: parseUintLoop_append)
  qed
qed

lemma ParseUint_FormatUint: "ParseUint (FormatUint (v :: uint64)) = (v, None)"
proof -
  have "unat v < 2 ^ 64"
    using unsigned_less [of v, where 'a = nat] by simp
  then have "unat v \<le> maxUint64"
    by (simp add: maxUint64_def)
  then show ?thesis
    by (simp add: ParseUint_def FormatUint_def digitsOf_nonempty parseUintLoop_digitsOf)
qed

lemma FormatUint_nonempty: "FormatUint v \<noteq> []"
  by (simp add: FormatUint_def digitsOf_nonempty)

lemma colon_notin_FormatUint: "CHR '':'' \<notin> set (FormatUint v)"
  by (simp add: FormatUint_def colon_notin_digitsOf)

subsection \<open>Splitting\<close>

lemma Split_no_sep: "sep \<notin> set xs \<Longrightarrow> Split xs sep = [xs]"
  by (induction xs) auto

lemma Split_append_sep:
  "sep \<notin> set xs \<Longrightarrow> Split (xs @ sep # ys) sep = xs # Split ys sep"
  by (induction xs) auto

lemma Split_nonempty: "Split xs sep \<noteq> []"
  by (induction xs) (auto split: list.splits)

lemma Split_one: "Split (FormatUint a) (CHR '':'') = [FormatUint a]"
  by (simp add: Split_no_sep colon_notin_FormatUint)

lemma Split_two:
  "Split (FormatUint a @ CHR '':'' # FormatUint b) (CHR '':'') = [FormatUint a, FormatUint b]"
  by (simp add: Split_append_sep Split_no_sep colon_notin_FormatUint)

lemma Split_three:
  "Split (FormatUint a @ CHR '':'' # FormatUint b @ CHR '':'' # FormatUint c) (CHR '':'')
     = [FormatUint a, FormatUint b, FormatUint c]"
  by (simp add: Split_append_sep Split_no_sep colon_notin_FormatUint)

lemma Split_three_empty:
  "Split (FormatUint a @ CHR '':'' # CHR '':'' # FormatUint c) (CHR '':'')
     = [FormatUint a, [], FormatUint c]"
  by (simp add: Split_append_sep Split_no_sep colon_notin_FormatUint)

lemma Component_FormatUint:
  "ParseIntSequenceComponent (FormatUint (v :: uint64)) b = (v, None)"
  by (simp add: ParseIntSequenceComponent_def ParseUint_FormatUint FormatUint_nonempty)

lemma Component_empty: "ParseIntSequenceComponent [] True = (0, None)"
  by (simp add: ParseIntSequenceComponent_def)

lemma parse_one:
  "parseIntegerSequenceID (FormatUint (a :: uint64)) =
     (zeroSequenceID\<lparr>Seq := a\<rparr>, None)"
  by (simp add: parseIntegerSequenceID_def Split_one Component_FormatUint FormatUint_nonempty
      zeroSequenceID_def Let_def)

lemma parse_two:
  "parseIntegerSequenceID (FormatUint (t :: uint64) @ '':'' @ FormatUint (a :: uint64)) =
     (zeroSequenceID\<lparr>TriggeredBy := t, Seq := a\<rparr>, None)"
  by (simp add: parseIntegerSequenceID_def Split_two Component_FormatUint FormatUint_nonempty
      zeroSequenceID_def Let_def)

lemma parse_three:
  "parseIntegerSequenceID
     (FormatUint (l :: uint64) @ '':'' @ FormatUint (t :: uint64) @ '':'' @ FormatUint (a :: uint64)) =
     (zeroSequenceID\<lparr>LowSeq := l, TriggeredBy := t, Seq := a\<rparr>, None)"
  by (simp add: parseIntegerSequenceID_def Split_three Component_FormatUint FormatUint_nonempty
      zeroSequenceID_def Let_def)

lemma parse_three_empty:
  "parseIntegerSequenceID (FormatUint (l :: uint64) @ ''::'' @ FormatUint (a :: uint64)) =
     (zeroSequenceID\<lparr>LowSeq := l, Seq := a\<rparr>, None)"
  by (simp add: parseIntegerSequenceID_def Split_three_empty Component_FormatUint
      FormatUint_nonempty Component_empty zeroSequenceID_def Let_def)


subsection \<open>Which texts parse\<close>

lemma decimalValue_ge: "n \<le> decimalValue n cs"
proof (induction cs arbitrary: n)
  case Nil
  then show ?case by (simp add: decimalValue_def)
next
  case (Cons c cs)
  have "n \<le> n * 10 + digitVal c" by simp
  also have "\<dots> \<le> decimalValue (n * 10 + digitVal c) cs" by (rule Cons.IH)
  finally show ?case by (simp add: decimalValue_def)
qed

lemma decimalValue_Cons: "decimalValue n (c # cs) = decimalValue (n * 10 + digitVal c) cs"
  by (simp add: decimalValue_def)

lemma parseUintLoop_Inr_iff:
  "(\<exists>m. parseUintLoop n cs = Inr m) \<longleftrightarrow>
     list_all isDigit cs \<and> (cs = [] \<or> decimalValue n cs \<le> maxUint64)"
proof (induction cs arbitrary: n)
  case Nil
  then show ?case by simp
next
  case (Cons c cs)
  let ?n' = "n * 10 + digitVal c"
  have ge: "?n' \<le> decimalValue ?n' cs" by (rule decimalValue_ge)
  show ?case
  proof (cases "isDigit c")
    case False
    then show ?thesis by simp
  next
    case digit: True
    show ?thesis
    proof (cases "n \<ge> cutoff64")
      case True
      then have "?n' > maxUint64" by (simp add: cutoff64_def maxUint64_def)
      with ge have "decimalValue ?n' cs > maxUint64" by linarith
      with digit True show ?thesis by (simp add: decimalValue_Cons)
    next
      case small: False
      show ?thesis
      proof (cases "?n' > maxUint64")
        case True
        with ge have "decimalValue ?n' cs > maxUint64" by linarith
        with digit small True show ?thesis by (simp add: decimalValue_Cons)
      next
        case False
        have "cs = [] \<Longrightarrow> decimalValue ?n' cs \<le> maxUint64"
          using False by (simp add: decimalValue_def)
        then show ?thesis
          using digit small False Cons.IH [of ?n'] by (auto simp add: decimalValue_Cons)
      qed
    qed
  qed
qed

lemma ParseUint_ok_iff: "snd (ParseUint c) = None \<longleftrightarrow> isUintText c"
proof (cases "c = []")
  case True
  then show ?thesis by (simp add: ParseUint_def isUintText_def)
next
  case False
  show ?thesis
  proof (cases "parseUintLoop 0 c")
    case (Inl e)
    then have "\<not> (\<exists>m. parseUintLoop 0 c = Inr m)" by simp
    then have "\<not> isUintText c"
      using False by (simp add: parseUintLoop_Inr_iff isUintText_def)
    moreover have "snd (ParseUint c) \<noteq> None"
      using False Inl by (cases e) (simp_all add: ParseUint_def)
    ultimately show ?thesis by simp
  next
    case (Inr m)
    then have "\<exists>m. parseUintLoop 0 c = Inr m" by simp
    then have "isUintText c"
      using False by (simp add: parseUintLoop_Inr_iff isUintText_def)
    moreover have "snd (ParseUint c) = None"
      using False Inr by (simp add: ParseUint_def)
    ultimately show ?thesis by simp
  qed
qed

lemma Component_ok_iff:
  "snd (ParseIntSequenceComponent c b) = None \<longleftrightarrow> (b \<and> c = []) \<or> isUintText c"
  by (auto simp add: ParseIntSequenceComponent_def ParseUint_ok_iff isUintText_def)

lemma parse_one_component:
  assumes "str \<noteq> []" "Split str (CHR '':'') = [a]"
  shows "snd (parseIntegerSequenceID str) =
           (if isUintText a then None else Some invalidSequence)"
proof -
  obtain v e where p: "ParseIntSequenceComponent a False = (v, e)" by force
  have "e = None \<longleftrightarrow> isUintText a"
    using Component_ok_iff [of a False] p by simp
  then show ?thesis
    using assms p by (auto simp add: parseIntegerSequenceID_def Let_def)
qed

lemma parse_two_components:
  assumes "str \<noteq> []" "Split str (CHR '':'') = [t, a]"
  shows "snd (parseIntegerSequenceID str) = None \<longleftrightarrow> isUintText t \<and> isUintText a"
proof -
  obtain v1 e1 where p1: "ParseIntSequenceComponent t False = (v1, e1)" by force
  obtain v2 e2 where p2: "ParseIntSequenceComponent a False = (v2, e2)" by force
  have "e1 = None \<longleftrightarrow> isUintText t"
    using Component_ok_iff [of t False] p1 by simp
  moreover have "e2 = None \<longleftrightarrow> isUintText a"
    using Component_ok_iff [of a False] p2 by simp
  ultimately show ?thesis
    using assms p1 p2 by (auto simp add: parseIntegerSequenceID_def Let_def)
qed

lemma parse_three_components:
  assumes "str \<noteq> []" "Split str (CHR '':'') = [l, t, a]"
  shows "snd (parseIntegerSequenceID str) = None \<longleftrightarrow>
           isUintText l \<and> (t = [] \<or> isUintText t) \<and> isUintText a"
proof -
  obtain v1 e1 where p1: "ParseIntSequenceComponent l False = (v1, e1)" by force
  obtain v2 e2 where p2: "ParseIntSequenceComponent t True = (v2, e2)" by force
  obtain v3 e3 where p3: "ParseIntSequenceComponent a False = (v3, e3)" by force
  have "e1 = None \<longleftrightarrow> isUintText l"
    using Component_ok_iff [of l False] p1 by simp
  moreover have "e2 = None \<longleftrightarrow> t = [] \<or> isUintText t"
    using Component_ok_iff [of t True] p2 by simp
  moreover have "e3 = None \<longleftrightarrow> isUintText a"
    using Component_ok_iff [of a False] p3 by simp
  ultimately show ?thesis
    using assms p1 p2 p3 by (auto simp add: parseIntegerSequenceID_def Let_def)
qed

lemma parse_many_components:
  assumes "str \<noteq> []" "length (Split str (CHR '':'')) > 3"
  shows "snd (parseIntegerSequenceID str) = Some invalidSequence"
  using assms by (simp add: parseIntegerSequenceID_def Let_def)


section \<open>Sequence identifiers against their specification\<close>

text \<open>
  C1. The spec asserts, for \<open>x = {seq:10}\<close> and \<open>y = {triggeredBy:8, seq:20}\<close>, that
  \<open>y.Before(x)\<close> is false. The comparator places the triggered side at its \<open>triggeredBy\<close>
  and compares it with \<open>\<le>\<close> against the untriggered side, so \<open>y.Before(x)\<close> holds
  exactly when \<open>y.triggeredBy \<le> x.seq\<close>: at these values it is true.
\<close>

theorem Before_triggered_counterexample:
  "Before (zeroSequenceID\<lparr>TriggeredBy := 8, Seq := 20\<rparr>) (zeroSequenceID\<lparr>Seq := 10\<rparr>) = True"
  by (simp add: Before_def SafeSequence_def zeroSequenceID_def)

text \<open>
  C1, as amended. For an untriggered \<open>x\<close> without \<open>lowSeq\<close> and a triggered \<open>y\<close>:
  \<open>x.Before(y)\<close> holds iff \<open>x.seq < y.triggeredBy\<close>, and \<open>y.Before(x)\<close> holds iff
  \<open>y.triggeredBy \<le> x.seq\<close>.
\<close>

theorem Before_retroactive_grant:
  assumes "TriggeredBy x = 0" and "LowSeq x = 0" and "TriggeredBy y \<noteq> 0"
  shows "(Before x y \<longleftrightarrow> Seq x < TriggeredBy y) \<and> (Before y x \<longleftrightarrow> TriggeredBy y \<le> Seq x)"
  using assms by (auto simp add: Before_def SafeSequence_def)

theorem Before_retroactive_grant_witness:
  "\<not> Before (zeroSequenceID\<lparr>Seq := 10\<rparr>) (zeroSequenceID\<lparr>TriggeredBy := 8, Seq := 20\<rparr>) \<and>
   Before (zeroSequenceID\<lparr>TriggeredBy := 8, Seq := 20\<rparr>) (zeroSequenceID\<lparr>Seq := 10\<rparr>)"
  using Before_retroactive_grant
          [of "zeroSequenceID\<lparr>Seq := 10\<rparr>" "zeroSequenceID\<lparr>TriggeredBy := 8, Seq := 20\<rparr>"]
  by (simp add: zeroSequenceID_def)

text \<open>
  C2. The spec states \<open>parse(format(s)) = s\<close> for every well-formed identifier. Formatting
  drops a \<open>lowSeq\<close> that is not below \<open>seq\<close>, so such an identifier does not come back:
  \<open>{lowSeq:5, seq:3}\<close> is written \<open>3\<close> and read as \<open>{seq:3}\<close>.
\<close>

theorem roundtrip_lowSeq_counterexample:
  "String (zeroSequenceID\<lparr>LowSeq := 5, Seq := 3\<rparr>) = ''3'' \<and>
   parseIntegerSequenceID (String (zeroSequenceID\<lparr>LowSeq := 5, Seq := 3\<rparr>))
     = (zeroSequenceID\<lparr>Seq := 3\<rparr>, None) \<and>
   zeroSequenceID\<lparr>Seq := 3\<rparr> \<noteq> zeroSequenceID\<lparr>LowSeq := 5, Seq := 3\<rparr>"
proof -
  have "String (zeroSequenceID\<lparr>LowSeq := 5, Seq := 3\<rparr>) = FormatUint (3 :: uint64)"
    by (simp add: String_def intSeqToString_def zeroSequenceID_def)
  moreover have "FormatUint (3 :: uint64) = ''3''"
    by (simp add: FormatUint_def digitsOf.simps digitChar_def)
  moreover have "parseIntegerSequenceID (FormatUint (3 :: uint64)) = (zeroSequenceID\<lparr>Seq := 3\<rparr>, None)"
    by (rule parse_one)
  ultimately show ?thesis
    by (simp add: zeroSequenceID_def)
qed

text \<open>
  C2, as amended. For every integer sequence identifier whose \<open>lowSeq\<close> is zero or below
  its \<open>seq\<close>, parsing the formatted text gives the identifier back, with no error.
\<close>

theorem parse_String_roundtrip:
  assumes "isIntSequenceID s" and "LowSeq s = 0 \<or> LowSeq s < Seq s"
  shows "parseIntegerSequenceID (String s) = (s, None)"
proof -
  have rec: "s = \<lparr>SeqType = IntSequenceType, TriggeredBy = TriggeredBy s, LowSeq = LowSeq s,
                   Seq = Seq s, Clock = None, TriggeredByClock = None, vbNo = 0\<rparr>"
    using assms(1) by (simp add: isIntSequenceID_def)
  have str: "String s = intSeqToString s"
    using assms(1) by (simp add: String_def isIntSequenceID_def)
  show ?thesis
  proof (cases "LowSeq s > 0 \<and> LowSeq s < Seq s")
    case low: True
    show ?thesis
    proof (cases "TriggeredBy s > 0")
      case True
      with low have "intSeqToString s =
          FormatUint (LowSeq s) @ '':'' @ FormatUint (TriggeredBy s) @ '':'' @ FormatUint (Seq s)"
        by (simp add: intSeqToString_def)
      then have "parseIntegerSequenceID (String s) =
          (zeroSequenceID\<lparr>LowSeq := LowSeq s, TriggeredBy := TriggeredBy s, Seq := Seq s\<rparr>, None)"
        using parse_three [of "LowSeq s" "TriggeredBy s" "Seq s"] str by simp
      then show ?thesis
        by (subst (2) rec) (simp add: zeroSequenceID_def)
    next
      case False
      then have t0: "TriggeredBy s = 0" by (simp add: word_gt_0)
      from False low have "intSeqToString s = FormatUint (LowSeq s) @ ''::'' @ FormatUint (Seq s)"
        by (simp add: intSeqToString_def)
      then have "parseIntegerSequenceID (String s) =
          (zeroSequenceID\<lparr>LowSeq := LowSeq s, Seq := Seq s\<rparr>, None)"
        using parse_three_empty [of "LowSeq s" "Seq s"] str by simp
      then show ?thesis
        using t0 by (subst (2) rec) (simp add: zeroSequenceID_def)
    qed
  next
    case nolow: False
    with assms(2) have l0: "LowSeq s = 0" by (auto simp add: word_gt_0)
    show ?thesis
    proof (cases "TriggeredBy s > 0")
      case True
      with nolow have "intSeqToString s = FormatUint (TriggeredBy s) @ '':'' @ FormatUint (Seq s)"
        by (simp add: intSeqToString_def)
      then have "parseIntegerSequenceID (String s) =
          (zeroSequenceID\<lparr>TriggeredBy := TriggeredBy s, Seq := Seq s\<rparr>, None)"
        using parse_two [of "TriggeredBy s" "Seq s"] str by simp
      then show ?thesis
        using l0 by (subst (2) rec) (simp add: zeroSequenceID_def)
    next
      case False
      then have t0: "TriggeredBy s = 0" by (simp add: word_gt_0)
      from False nolow have "intSeqToString s = FormatUint (Seq s)"
        by (simp add: intSeqToString_def)
      then have "parseIntegerSequenceID (String s) = (zeroSequenceID\<lparr>Seq := Seq s\<rparr>, None)"
        using parse_one [of "Seq s"] str by simp
      then show ?thesis
        using l0 t0 by (subst (2) rec) (simp add: zeroSequenceID_def)
    qed
  qed
qed

theorem parse_String_roundtrip_witness:
  "isIntSequenceID (zeroSequenceID\<lparr>LowSeq := 5, TriggeredBy := 8, Seq := 20\<rparr>) \<and>
   parseIntegerSequenceID (String (zeroSequenceID\<lparr>LowSeq := 5, TriggeredBy := 8, Seq := 20\<rparr>))
     = (zeroSequenceID\<lparr>LowSeq := 5, TriggeredBy := 8, Seq := 20\<rparr>, None)"
proof -
  have w: "isIntSequenceID (zeroSequenceID\<lparr>LowSeq := 5, TriggeredBy := 8, Seq := 20\<rparr>)"
    by (simp add: isIntSequenceID_def zeroSequenceID_def)
  have l: "LowSeq (zeroSequenceID\<lparr>LowSeq := 5, TriggeredBy := 8, Seq := 20\<rparr>) = 0 \<or>
           LowSeq (zeroSequenceID\<lparr>LowSeq := 5, TriggeredBy := 8, Seq := 20\<rparr>)
             < Seq (zeroSequenceID\<lparr>LowSeq := 5, TriggeredBy := 8, Seq := 20\<rparr>)"
    by simp
  show ?thesis
    using w parse_String_roundtrip [OF w l] by simp
qed


text \<open>
  C5. The text of an integer sequence identifier is \<open>seq\<close> when \<open>triggeredBy\<close> and
  \<open>lowSeq\<close> are both zero, \<open>triggeredBy:seq\<close> when only \<open>triggeredBy\<close> is nonzero,
  \<open>lowSeq::seq\<close> when only \<open>lowSeq\<close> is nonzero, \<open>lowSeq:triggeredBy:seq\<close> when both
  are; and a \<open>lowSeq\<close> that is not below \<open>seq\<close> is formatted as if it were zero.
  The function of the source computes the encoding the specification words, and its
  result does not change when such a \<open>lowSeq\<close> is replaced by zero.
\<close>

theorem intSeqToString_forms:
  "intSeqToString s = specEncode s \<and>
   (LowSeq s \<ge> Seq s \<longrightarrow> intSeqToString s = intSeqToString (s\<lparr>LowSeq := 0\<rparr>))"
proof
  show "intSeqToString s = specEncode s"
    by (auto simp add: intSeqToString_def specEncode_def Let_def word_gt_0 not_less)
next
  show "LowSeq s \<ge> Seq s \<longrightarrow> intSeqToString s = intSeqToString (s\<lparr>LowSeq := 0\<rparr>)"
    by (auto simp add: intSeqToString_def)
qed

theorem intSeqToString_forms_witness:
  "intSeqToString (zeroSequenceID\<lparr>LowSeq := 5, Seq := 10\<rparr>) = ''5::10'' \<and>
   Seq (zeroSequenceID\<lparr>LowSeq := 12, TriggeredBy := 8, Seq := 10\<rparr>)
     \<le> LowSeq (zeroSequenceID\<lparr>LowSeq := 12, TriggeredBy := 8, Seq := 10\<rparr>) \<and>
   intSeqToString (zeroSequenceID\<lparr>LowSeq := 12, TriggeredBy := 8, Seq := 10\<rparr>)
     = intSeqToString (zeroSequenceID\<lparr>LowSeq := 12, TriggeredBy := 8, Seq := 10\<rparr>\<lparr>LowSeq := 0\<rparr>)"
proof -
  have f5: "FormatUint (5 :: uint64) = ''5''" and f10: "FormatUint (10 :: uint64) = ''10''"
    by (simp_all add: FormatUint_def digitsOf.simps digitChar_def)
  have enc: "specEncode (zeroSequenceID\<lparr>LowSeq := 5, Seq := 10\<rparr>) = ''5::10''"
    by (simp add: specEncode_def zeroSequenceID_def f5 f10)
  have le: "Seq (zeroSequenceID\<lparr>LowSeq := 12, TriggeredBy := 8, Seq := 10\<rparr>)
     \<le> LowSeq (zeroSequenceID\<lparr>LowSeq := 12, TriggeredBy := 8, Seq := 10\<rparr>)"
    by simp
  have a: "intSeqToString (zeroSequenceID\<lparr>LowSeq := 5, Seq := 10\<rparr>) = ''5::10''"
    using intSeqToString_forms [of "zeroSequenceID\<lparr>LowSeq := 5, Seq := 10\<rparr>"] enc
    by (simp only:)
  have b: "intSeqToString (zeroSequenceID\<lparr>LowSeq := 12, TriggeredBy := 8, Seq := 10\<rparr>)
     = intSeqToString (zeroSequenceID\<lparr>LowSeq := 12, TriggeredBy := 8, Seq := 10\<rparr>\<lparr>LowSeq := 0\<rparr>)"
    by (rule mp [OF intSeqToString_forms [THEN conjunct2] le])
  from a le b show ?thesis
    by (intro conjI)
qed

text \<open>
  C6. The spec states that every text outside the three wire forms is answered with a
  400 error. The empty text is outside the three forms, and the parser accepts it.
\<close>

theorem parse_empty_unrecognized_counterexample:
  "\<not> recognizedForm '''' \<and> snd (parseIntegerSequenceID '''') = None"
  by (simp add: recognizedForm_def isUintText_def parseIntegerSequenceID_def)

text \<open>
  C6, as amended. Every text that is not empty and not one of the three wire forms is
  answered with an error, and with the 400 error when it has one component or more than
  three.
\<close>

theorem parse_unrecognized_error:
  assumes "str \<noteq> []" and "\<not> recognizedForm str"
  shows "snd (parseIntegerSequenceID str) \<noteq> None \<and>
         (length (Split str (CHR '':'')) \<noteq> 2 \<and> length (Split str (CHR '':'')) \<noteq> 3
            \<longrightarrow> snd (parseIntegerSequenceID str) = Some invalidSequence)"
proof -
  let ?cs = "Split str (CHR '':'')"
  have ne: "?cs \<noteq> []" by (rule Split_nonempty)
  consider (one) a where "?cs = [a]" | (two) t a where "?cs = [t, a]"
    | (three) l t a where "?cs = [l, t, a]" | (many) "length ?cs > 3"
  proof (cases ?cs)
    case Nil
    with ne show ?thesis by simp
  next
    case c1: (Cons a as)
    show ?thesis
    proof (cases as)
      case Nil
      with c1 one show ?thesis by simp
    next
      case c2: (Cons b bs)
      show ?thesis
      proof (cases bs)
        case Nil
        with c1 c2 two show ?thesis by simp
      next
        case c3: (Cons c cs)
        show ?thesis
        proof (cases cs)
          case Nil
          with c1 c2 c3 three show ?thesis by simp
        next
          case (Cons d ds)
          with c1 c2 c3 many show ?thesis by simp
        qed
      qed
    qed
  qed
  then show ?thesis
  proof cases
    case one
    with assms(2) have "\<not> isUintText a" by (simp add: recognizedForm_def)
    then show ?thesis
      using parse_one_component [OF assms(1) one] by simp
  next
    case two
    with assms(2) have "\<not> (isUintText t \<and> isUintText a)" by (simp add: recognizedForm_def)
    then show ?thesis
      using parse_two_components [OF assms(1) two] two by simp
  next
    case three
    with assms(2) have "\<not> (isUintText l \<and> (t = [] \<or> isUintText t) \<and> isUintText a)"
      by (simp add: recognizedForm_def)
    then show ?thesis
      using parse_three_components [OF assms(1) three] three by simp
  next
    case many
    then show ?thesis
      using parse_many_components [OF assms(1) many] by simp
  qed
qed

theorem parse_unrecognized_error_witness:
  "''1:2:3:4'' \<noteq> [] \<and> \<not> recognizedForm ''1:2:3:4'' \<and>
   snd (parseIntegerSequenceID ''1:2:3:4'') = Some invalidSequence"
proof -
  have ne: "''1:2:3:4'' \<noteq> []" by simp
  have sp: "Split ''1:2:3:4'' (CHR '':'') = [''1'', ''2'', ''3'', ''4'']" by simp
  have nr: "\<not> recognizedForm ''1:2:3:4''"
    by (simp add: recognizedForm_def sp)
  show ?thesis
    using ne nr parse_unrecognized_error [OF ne nr] by (simp add: sp)
qed

text \<open>
  With two or three components the parser returns from inside the branch, before the
  final test that turns an error into the 400 error: the error of \<^verbatim>\<open>strconv\<close> comes back
  as it is.
\<close>

lemma early_return_keeps_strconv_error:
  "snd (parseIntegerSequenceID ''x:1'') = Some ErrSyntax \<and>
   snd (parseIntegerSequenceID ''x'') = Some invalidSequence"
  by (simp add: parseIntegerSequenceID_def ParseIntSequenceComponent_def ParseUint_def
      isDigit_def Let_def)

text \<open>
  C10. Parsing the empty text succeeds: the result is the zero identifier
  (\<open>Seq = 0\<close>, \<open>TriggeredBy = 0\<close>, \<open>LowSeq = 0\<close>) with no error, although the empty
  text is not one of the three wire forms.
\<close>

theorem parse_empty_string:
  "parseIntegerSequenceID '''' = (zeroSequenceID, None) \<and>
   Seq zeroSequenceID = 0 \<and> TriggeredBy zeroSequenceID = 0 \<and> LowSeq zeroSequenceID = 0 \<and>
   \<not> recognizedForm ''''"
  by (simp add: parseIntegerSequenceID_def zeroSequenceID_def recognizedForm_def isUintText_def)


section \<open>The skipped sequence list\<close>

lemma sorted_wrt_remove1: "sorted_wrt P xs \<Longrightarrow> sorted_wrt P (remove1 x xs)"
proof (induction xs)
  case Nil
  then show ?case by simp
next
  case (Cons a xs)
  have "set (remove1 x xs) \<subseteq> set xs" by (rule set_remove1_subset)
  with Cons show ?case by auto
qed

lemma sorted_wrt_less_last:
  assumes "sorted_wrt (\<lambda>a b. f a < (f b :: 'b :: linorder)) xs" and "y \<in> set xs"
  shows "f y \<le> f (last xs)"
  using assms
proof (induction xs)
  case Nil
  then show ?case by simp
next
  case (Cons a xs)
  show ?case
  proof (cases "xs = []")
    case True
    with Cons.prems show ?thesis by simp
  next
    case False
    then have l: "last xs \<in> set xs" by simp
    show ?thesis
    proof (cases "y = a")
      case True
      with Cons.prems l False show ?thesis by (auto simp add: less_imp_le)
    next
      case ne: False
      with Cons.prems have "y \<in> set xs" by simp
      with Cons False show ?thesis by simp
    qed
  qed
qed

lemma Push_cases:
  "Push x l =
     (if skippedList l = [] \<or> seq (last (skippedList l)) < seq x
      then (l\<lparr>skippedList := skippedList l @ [x], skippedMap := (skippedMap l)(seq x \<mapsto> x)\<rparr>, None)
      else (l, Some pushError))"
  by (cases "skippedList l") (simp_all add: Push_def)

lemma Push_sorted:
  assumes "sorted_wrt (\<lambda>a b. seq a < seq b) (skippedList l)"
  shows "sorted_wrt (\<lambda>a b. seq a < seq b) (skippedList (fst (Push x l)))"
proof (cases "skippedList l = [] \<or> seq (last (skippedList l)) < seq x")
  case True
  have "seq y < seq x" if "y \<in> set (skippedList l)" for y
  proof -
    from that have ne: "skippedList l \<noteq> []" by auto
    have "seq y \<le> seq (last (skippedList l))"
      using assms that by (rule sorted_wrt_less_last)
    with True ne show ?thesis by simp
  qed
  with assms True show ?thesis
    by (simp add: Push_cases sorted_wrt_append)
next
  case False
  with assms show ?thesis by (simp add: Push_cases)
qed

lemma Remove_list:
  "skippedList (fst (Remove x l)) =
     (case skippedMap l x of
        Some e \<Rightarrow> remove1 e (skippedList l)
      | None \<Rightarrow> skippedList l)"
  by (simp add: Remove_def split: option.split)

lemma Remove_sorted:
  assumes "sorted_wrt (\<lambda>a b. seq a < seq b) (skippedList l)"
  shows "sorted_wrt (\<lambda>a b. seq a < seq b) (skippedList (fst (Remove x l)))"
  using assms by (simp add: Remove_list sorted_wrt_remove1 split: option.split)

lemma applySkippedOp_sorted:
  assumes "sorted_wrt (\<lambda>a b. seq a < seq b) (skippedList l)"
  shows "sorted_wrt (\<lambda>a b. seq a < seq b) (skippedList (applySkippedOp op l))"
  using assms by (cases op) (simp_all add: Push_sorted Remove_sorted)

lemma runSkippedOps_sorted:
  assumes "sorted_wrt (\<lambda>a b. seq a < seq b) (skippedList l)"
  shows "sorted_wrt (\<lambda>a b. seq a < seq b) (skippedList (fold applySkippedOp ops l))"
  using assms by (induction ops arbitrary: l) (simp_all add: applySkippedOp_sorted)

lemma sorted_times_remove1:
  assumes "sorted (map timeAdded xs @ ts)"
  shows "sorted (map timeAdded (remove1 e xs) @ ts)"
proof -
  have "sorted_wrt (\<lambda>a b. timeAdded a \<le> timeAdded b) xs"
    using assms by (simp add: sorted_append sorted_map)
  then have "sorted_wrt (\<lambda>a b. timeAdded a \<le> timeAdded b) (remove1 e xs)"
    by (rule sorted_wrt_remove1)
  moreover have "set (remove1 e xs) \<subseteq> set xs" by (rule set_remove1_subset)
  ultimately show ?thesis
    using assms by (auto simp add: sorted_append sorted_map)
qed

lemma runSkippedOps_times:
  assumes "sorted (map timeAdded (skippedList l) @ map timeAdded (pushedOf ops))"
  shows "sorted (map timeAdded (skippedList (fold applySkippedOp ops l)))"
  using assms
proof (induction ops arbitrary: l)
  case Nil
  then show ?case by simp
next
  case (Cons op ops)
  show ?case
  proof (cases op)
    case (OpPush x)
    have "sorted (map timeAdded (skippedList (fst (Push x l))) @ map timeAdded (pushedOf ops))"
      using Cons.prems OpPush by (auto simp add: Push_cases sorted_append)
    then show ?thesis
      using Cons.IH [of "fst (Push x l)"] OpPush by simp
  next
    case (OpRemove x)
    have "sorted (map timeAdded (skippedList (fst (Remove x l))) @ map timeAdded (pushedOf ops))"
      using Cons.prems OpRemove
      by (simp add: Remove_list sorted_times_remove1 split: option.split)
    then show ?thesis
      using Cons.IH [of "fst (Remove x l)"] OpRemove by simp
  qed
qed

text \<open>
  C8. The spec states that the list stays strictly increasing in sequence and in
  \<open>timeAdded\<close>. \<^verbatim>\<open>Push\<close> compares sequences only: two elements pushed with the same
  reading of the clock are both kept.
\<close>

theorem skipped_times_counterexample:
  "skippedList (runSkippedOps [OpPush \<lparr>seq = 1, timeAdded = 100\<rparr>, OpPush \<lparr>seq = 2, timeAdded = 100\<rparr>]
                  NewSkippedSequenceList)
     = [\<lparr>seq = 1, timeAdded = 100\<rparr>, \<lparr>seq = 2, timeAdded = 100\<rparr>] \<and>
   \<not> sorted_wrt (<) (map timeAdded
        (skippedList (runSkippedOps [OpPush \<lparr>seq = 1, timeAdded = 100\<rparr>, OpPush \<lparr>seq = 2, timeAdded = 100\<rparr>]
                        NewSkippedSequenceList)))"
  by (simp add: runSkippedOps_def Push_cases NewSkippedSequenceList_def)

text \<open>
  C8, as amended. Every run of \<^verbatim>\<open>Push\<close> and \<^verbatim>\<open>Remove\<close> from the empty list keeps the list
  strictly increasing in sequence; \<^verbatim>\<open>Push\<close> appends exactly when the list is empty or the
  new sequence is above the sequence at the tail, and otherwise returns an error and the
  list as it was; and the list is non-decreasing in \<open>timeAdded\<close> when the pushed
  elements carry non-decreasing times.
\<close>

theorem skipped_list_ordered:
  "sorted_wrt (<) (map seq (skippedList (runSkippedOps ops NewSkippedSequenceList))) \<and>
   Push x l =
     (if skippedList l = [] \<or> seq (last (skippedList l)) < seq x
      then (l\<lparr>skippedList := skippedList l @ [x], skippedMap := (skippedMap l)(seq x \<mapsto> x)\<rparr>, None)
      else (l, Some pushError)) \<and>
   (sorted (map timeAdded (pushedOf ops)) \<longrightarrow>
      sorted (map timeAdded (skippedList (runSkippedOps ops NewSkippedSequenceList))))"
proof (intro conjI impI)
  have "sorted_wrt (\<lambda>a b. seq a < seq b) (skippedList NewSkippedSequenceList)"
    by (simp add: NewSkippedSequenceList_def)
  then have "sorted_wrt (\<lambda>a b. seq a < seq b)
               (skippedList (fold applySkippedOp ops NewSkippedSequenceList))"
    by (rule runSkippedOps_sorted)
  then show "sorted_wrt (<) (map seq (skippedList (runSkippedOps ops NewSkippedSequenceList)))"
    by (simp add: runSkippedOps_def sorted_wrt_map)
next
  show "Push x l =
     (if skippedList l = [] \<or> seq (last (skippedList l)) < seq x
      then (l\<lparr>skippedList := skippedList l @ [x], skippedMap := (skippedMap l)(seq x \<mapsto> x)\<rparr>, None)
      else (l, Some pushError))"
    by (rule Push_cases)
next
  assume "sorted (map timeAdded (pushedOf ops))"
  then have "sorted (map timeAdded (skippedList NewSkippedSequenceList) @ map timeAdded (pushedOf ops))"
    by (simp add: NewSkippedSequenceList_def)
  then show "sorted (map timeAdded (skippedList (runSkippedOps ops NewSkippedSequenceList)))"
    unfolding runSkippedOps_def by (rule runSkippedOps_times)
qed

theorem skipped_list_ordered_witness:
  "sorted (map timeAdded (pushedOf [OpPush \<lparr>seq = 1, timeAdded = 100\<rparr>, OpPush \<lparr>seq = 2, timeAdded = 100\<rparr>,
                                     OpPush \<lparr>seq = 2, timeAdded = 120\<rparr>, OpRemove 1])) \<and>
   sorted (map timeAdded (skippedList (runSkippedOps
             [OpPush \<lparr>seq = 1, timeAdded = 100\<rparr>, OpPush \<lparr>seq = 2, timeAdded = 100\<rparr>,
              OpPush \<lparr>seq = 2, timeAdded = 120\<rparr>, OpRemove 1] NewSkippedSequenceList))) \<and>
   skippedList (runSkippedOps
             [OpPush \<lparr>seq = 1, timeAdded = 100\<rparr>, OpPush \<lparr>seq = 2, timeAdded = 100\<rparr>,
              OpPush \<lparr>seq = 2, timeAdded = 120\<rparr>, OpRemove 1] NewSkippedSequenceList)
     = [\<lparr>seq = 2, timeAdded = 100\<rparr>]"
proof -
  let ?ops = "[OpPush \<lparr>seq = 1, timeAdded = 100\<rparr>, OpPush \<lparr>seq = 2, timeAdded = 100\<rparr>,
               OpPush \<lparr>seq = 2, timeAdded = 120\<rparr>, OpRemove 1]"
  have s: "sorted (map timeAdded (pushedOf ?ops))" by simp
  have r: "skippedList (runSkippedOps ?ops NewSkippedSequenceList) = [\<lparr>seq = 2, timeAdded = 100\<rparr>]"
    by (simp add: runSkippedOps_def Push_cases Remove_def NewSkippedSequenceList_def)
  from skipped_list_ordered [of ?ops]
  have "sorted (map timeAdded (skippedList (runSkippedOps ?ops NewSkippedSequenceList)))"
    using s by blast
  with s r show ?thesis by (intro conjI)
qed


section \<open>The change cache: what the operations leave alone\<close>

lemma addToChannel_form:
  "\<exists>cc. addToChannel change name isRemoval c = c\<lparr>channelCaches := cc\<rparr>"
  by (auto simp add: addToChannel_def getChannelCache_def Let_def split: option.split)

lemma addToChannels_form:
  "\<exists>cc. snd (addToChannels change ch (addedTo, c)) = c\<lparr>channelCaches := cc\<rparr>"
proof (induction ch arbitrary: addedTo c)
  case Nil
  show ?case by (rule exI [of _ "channelCaches c"]) simp
next
  case (Cons a ch)
  obtain name removal where a: "a = (name, removal)" by force
  show ?case
  proof (cases "removal = None \<or> map_option RemovalSeq removal = Some (Sequence change)")
    case True
    obtain cc1 where c1: "addToChannel change name (removal \<noteq> None) c = c\<lparr>channelCaches := cc1\<rparr>"
      using addToChannel_form by blast
    obtain cc2 where
      "snd (addToChannels change ch (insert name addedTo, c\<lparr>channelCaches := cc1\<rparr>))
         = c\<lparr>channelCaches := cc1\<rparr>\<lparr>channelCaches := cc2\<rparr>"
      using Cons.IH by blast
    then have "snd (addToChannels change (a # ch) (addedTo, c)) = c\<lparr>channelCaches := cc2\<rparr>"
      using True a c1 by simp
    then show ?thesis by blast
  next
    case False
    then have "addToChannels change (a # ch) (addedTo, c) = addToChannels change ch (addedTo, c)"
      using a by auto
    then show ?thesis using Cons.IH [of addedTo c] by simp
  qed
qed

text \<open>\<^verbatim>\<open>_addToCache\<close> changes \<open>nextSequence\<close> and the channel caches, and nothing else.\<close>

lemma addToCache_form:
  "\<exists>cc. snd (addToCache change c) =
     c\<lparr>nextSequence := (if Sequence change \<ge> nextSequence c then Sequence change + 1
                         else nextSequence c),
       channelCaches := cc\<rparr>"
proof -
  let ?n = "if Sequence change \<ge> nextSequence c then Sequence change + 1 else nextSequence c"
  let ?c1 = "if Sequence change \<ge> nextSequence c
             then c\<lparr>nextSequence := Sequence change + 1\<rparr> else c"
  have c1: "?c1 = c\<lparr>nextSequence := ?n\<rparr>" by simp
  show ?thesis
  proof (cases "DocID change = []")
    case True
    then have "snd (addToCache change c) = c\<lparr>nextSequence := ?n, channelCaches := channelCaches c\<rparr>"
      by (simp add: addToCache_def Let_def)
    then show ?thesis by blast
  next
    case False
    obtain a c2 where r:
      "addToChannels (change\<lparr>Channels := []\<rparr>) (Channels change) ({}, ?c1) = (a, c2)"
      by force
    obtain cc where "snd (addToChannels (change\<lparr>Channels := []\<rparr>) (Channels change) ({}, ?c1))
                       = ?c1\<lparr>channelCaches := cc\<rparr>"
      using addToChannels_form by blast
    with r have c2: "c2 = c\<lparr>nextSequence := ?n, channelCaches := cc\<rparr>"
      by (simp split: if_splits)
    obtain cc' where "addToChannel (change\<lparr>Channels := []\<rparr>) UserStarChannel False c2
                        = c2\<lparr>channelCaches := cc'\<rparr>"
      using addToChannel_form by blast
    with c2 r False
    have "snd (addToCache change c) = c\<lparr>nextSequence := ?n, channelCaches := cc'\<rparr>"
      by (simp add: addToCache_def Let_def EnableStarChannelLog_def)
    then show ?thesis by blast
  qed
qed

lemma addToCache_placeholder:
  "DocID change = [] \<Longrightarrow>
   addToCache change c =
     ({}, c\<lparr>nextSequence := (if Sequence change \<ge> nextSequence c then Sequence change + 1
                               else nextSequence c)\<rparr>)"
  by (simp add: addToCache_def Let_def)

subsection \<open>The loop of the pending entries, one round at a time\<close>

lemma loop_empty:
  "pendingLogs c = [] \<Longrightarrow> addPendingLogsLoop now changed c = (changed, c)"
  by (simp add: addPendingLogsLoop.simps [of now changed c])

lemma loop_pop:
  assumes "pendingLogs c = change # rest" and "Sequence change = nextSequence c"
  shows "addPendingLogsLoop now changed c =
           addPendingLogsLoop now
             (changed \<union> fst (addToCache change (c\<lparr>pendingLogs := rest\<rparr>)))
             (snd (addToCache change (c\<lparr>pendingLogs := rest\<rparr>)))"
  using assms by (simp add: addPendingLogsLoop.simps [of now changed c] heap_Pop_def)

lemma loop_skip:
  assumes "pendingLogs c = change # rest" and "Sequence change \<noteq> nextSequence c"
    and "int (length (pendingLogs c)) > CachePendingSeqMaxNum (options c)
           \<or> now - TimeReceived change \<ge> CachePendingSeqMaxWait (options c)"
  shows "addPendingLogsLoop now changed c =
           addPendingLogsLoop now changed
             ((PushSkipped now (nextSequence c) c)\<lparr>nextSequence := nextSequence c + 1\<rparr>)"
  using assms by (simp add: addPendingLogsLoop.simps [of now changed c])

lemma loop_stop:
  assumes "pendingLogs c = change # rest" and "Sequence change \<noteq> nextSequence c"
    and "\<not> (int (length (pendingLogs c)) > CachePendingSeqMaxNum (options c)
           \<or> now - TimeReceived change \<ge> CachePendingSeqMaxWait (options c))"
  shows "addPendingLogsLoop now changed c = (changed, c)"
  using assms by (simp add: addPendingLogsLoop.simps [of now changed c])

text \<open>A property that every round of the loop keeps holds of the cache the loop returns,
  and the loop returns in a state in which it ends.\<close>

lemma loop_invariant_done:
  assumes start: "I c"
    and pop: "\<And>d change rest. I d \<Longrightarrow> pendingLogs d = change # rest
                \<Longrightarrow> Sequence change = nextSequence d
                \<Longrightarrow> I (snd (addToCache change (d\<lparr>pendingLogs := rest\<rparr>)))"
    and skip: "\<And>d change rest. I d \<Longrightarrow> pendingLogs d = change # rest
                \<Longrightarrow> Sequence change \<noteq> nextSequence d
                \<Longrightarrow> int (length (pendingLogs d)) > CachePendingSeqMaxNum (options d)
                      \<or> now - TimeReceived change \<ge> CachePendingSeqMaxWait (options d)
                \<Longrightarrow> I ((PushSkipped now (nextSequence d) d)\<lparr>nextSequence := nextSequence d + 1\<rparr>)"
  shows "I (snd (addPendingLogsLoop now changed c)) \<and>
         loopDone now (snd (addPendingLogsLoop now changed c))"
proof -
  have "n = now \<longrightarrow> I c \<longrightarrow>
          I (snd (addPendingLogsLoop n changed c)) \<and>
          loopDone n (snd (addPendingLogsLoop n changed c))" for n
  proof (induction n changed c rule: addPendingLogsLoop.induct)
    case (1 n changed c)
    show ?case
    proof (intro impI)
      assume n: "n = now" and c: "I c"
      show "I (snd (addPendingLogsLoop n changed c)) \<and>
            loopDone n (snd (addPendingLogsLoop n changed c))"
      proof (cases "pendingLogs c")
        case Nil
        with c show ?thesis by (simp add: loop_empty loopDone_def)
      next
        case (Cons change rest)
        show ?thesis
        proof (cases "Sequence change = nextSequence c")
          case True
          have "I (snd (addToCache change (c\<lparr>pendingLogs := rest\<rparr>)))"
            using c Cons True by (rule pop)
          then have "I (snd (addToCache change (c\<lparr>pendingLogs := heap_Pop (pendingLogs c)\<rparr>)))"
            using Cons by (simp add: heap_Pop_def)
          then have "I (snd (addPendingLogsLoop n
                   (changed \<union> fst (addToCache change (c\<lparr>pendingLogs := heap_Pop (pendingLogs c)\<rparr>)))
                   (snd (addToCache change (c\<lparr>pendingLogs := heap_Pop (pendingLogs c)\<rparr>))))) \<and>
                 loopDone n (snd (addPendingLogsLoop n
                   (changed \<union> fst (addToCache change (c\<lparr>pendingLogs := heap_Pop (pendingLogs c)\<rparr>)))
                   (snd (addToCache change (c\<lparr>pendingLogs := heap_Pop (pendingLogs c)\<rparr>)))))"
            using "1.IH"(1) [OF Cons True] n by blast
          then show ?thesis
            using Cons True by (simp add: loop_pop [OF Cons True] heap_Pop_def)
        next
          case notNext: False
          show ?thesis
          proof (cases "int (length (pendingLogs c)) > CachePendingSeqMaxNum (options c)
                          \<or> n - TimeReceived change \<ge> CachePendingSeqMaxWait (options c)")
            case True
            have "I ((PushSkipped now (nextSequence c) c)\<lparr>nextSequence := nextSequence c + 1\<rparr>)"
              using c Cons notNext True n by (intro skip) simp_all
            then have "I (snd (addPendingLogsLoop n changed
                     ((PushSkipped n (nextSequence c) c)\<lparr>nextSequence := nextSequence c + 1\<rparr>))) \<and>
                   loopDone n (snd (addPendingLogsLoop n changed
                     ((PushSkipped n (nextSequence c) c)\<lparr>nextSequence := nextSequence c + 1\<rparr>)))"
              using "1.IH"(2) [OF Cons notNext True] n by blast
            then show ?thesis
              by (simp add: loop_skip [OF Cons notNext True])
          next
            case False
            with c Cons notNext show ?thesis
              by (simp add: loop_stop [OF Cons notNext False] loopDone_def)
          qed
        qed
      qed
    qed
  qed
  with start show ?thesis by blast
qed

lemma loop_invariant:
  assumes start: "I c"
    and pop: "\<And>d change rest. I d \<Longrightarrow> pendingLogs d = change # rest
                \<Longrightarrow> Sequence change = nextSequence d
                \<Longrightarrow> I (snd (addToCache change (d\<lparr>pendingLogs := rest\<rparr>)))"
    and skip: "\<And>d change rest. I d \<Longrightarrow> pendingLogs d = change # rest
                \<Longrightarrow> Sequence change \<noteq> nextSequence d
                \<Longrightarrow> I ((PushSkipped now (nextSequence d) d)\<lparr>nextSequence := nextSequence d + 1\<rparr>)"
  shows "I (snd (addPendingLogsLoop now changed c))"
proof -
  have "I (snd (addPendingLogsLoop now changed c)) \<and>
        loopDone now (snd (addPendingLogsLoop now changed c))"
  proof (rule loop_invariant_done [where I = I])
    show "I c" by (rule start)
  next
    fix d :: changeCache and change rest
    assume "I d" and "pendingLogs d = change # rest" and "Sequence change = nextSequence d"
    then show "I (snd (addToCache change (d\<lparr>pendingLogs := rest\<rparr>)))" by (rule pop)
  next
    fix d :: changeCache and change rest
    assume "I d" and "pendingLogs d = change # rest" and "Sequence change \<noteq> nextSequence d"
    then show "I ((PushSkipped now (nextSequence d) d)\<lparr>nextSequence := nextSequence d + 1\<rparr>)"
      by (rule skip)
  qed
  then show ?thesis by blast
qed


lemma addToCache_keeps:
  "logsDisabled (snd (addToCache change c)) = logsDisabled c \<and>
   receivedSeqs (snd (addToCache change c)) = receivedSeqs c \<and>
   pendingLogs (snd (addToCache change c)) = pendingLogs c \<and>
   initialSequence (snd (addToCache change c)) = initialSequence c \<and>
   options (snd (addToCache change c)) = options c \<and>
   skippedSeqs (snd (addToCache change c)) = skippedSeqs c \<and>
   notified (snd (addToCache change c)) = notified c"
proof -
  obtain cc where "snd (addToCache change c) =
     c\<lparr>nextSequence := (if Sequence change \<ge> nextSequence c then Sequence change + 1
                         else nextSequence c),
       channelCaches := cc\<rparr>"
    using addToCache_form by blast
  then show ?thesis by simp
qed


section \<open>Duplicates\<close>




section \<open>The next sequence\<close>

lemma word_lt_max: "(a :: 'a::len word) \<noteq> - 1 \<Longrightarrow> a < - 1"
  by (simp add: less_le)

lemma word_lt_succ: "(a :: uint64) < b \<Longrightarrow> a < a + 1"
  by unat_arith

lemma word_succ_nonzero: "(a :: uint64) < b \<Longrightarrow> a + 1 \<noteq> 0"
  by unat_arith

lemma word_le_succ: "(a :: uint64) \<noteq> - 1 \<Longrightarrow> a \<le> a + 1"
  using word_lt_succ [OF word_lt_max] by (simp add: less_imp_le)

lemma sorted_wrt_insort_key:
  fixes f :: "'a \<Rightarrow> 'b :: linorder"
  assumes "sorted_wrt (<) (map f xs)" and "f x \<notin> f ` set xs"
  shows "sorted_wrt (<) (map f (insort_key f x xs))"
  using assms
proof (induction xs)
  case Nil
  then show ?case by simp
next
  case (Cons y ys)
  show ?case
  proof (cases "f x \<le> f y")
    case True
    with Cons.prems have "f x < f y" by auto
    with Cons.prems True show ?thesis by (auto intro: less_trans)
  next
    case False
    with Cons show ?thesis by (auto simp add: set_insort_key)
  qed
qed

text \<open>\<^verbatim>\<open>_addToCache\<close> moves \<open>nextSequence\<close> to one past the sequence of the entry when the
  entry is not behind it.\<close>

lemma addToCache_next:
  "nextSequence (snd (addToCache change c)) =
     (if Sequence change \<ge> nextSequence c then Sequence change + 1 else nextSequence c)"
proof -
  obtain cc where "snd (addToCache change c) =
     c\<lparr>nextSequence := (if Sequence change \<ge> nextSequence c then Sequence change + 1
                         else nextSequence c),
       channelCaches := cc\<rparr>"
    using addToCache_form by blast
  then show ?thesis by simp
qed

lemma addToCache_monotone:
  assumes "Sequence change \<noteq> - 1"
  shows "nextSequence c \<le> nextSequence (snd (addToCache change c))"
proof (cases "Sequence change \<ge> nextSequence c")
  case True
  have "Sequence change \<le> Sequence change + 1"
    using assms by (rule word_le_succ)
  with True show ?thesis by (simp add: addToCache_next)
next
  case False
  then show ?thesis by (simp add: addToCache_next)
qed

text \<open>One round of popping keeps the state of the queue.\<close>

lemma pop_keeps:
  assumes inv: "pendingInv d" and below: "pendingBelowMax d"
    and pending: "pendingLogs d = change # rest" and isNext: "Sequence change = nextSequence d"
  shows "pendingInv (snd (addToCache change (d\<lparr>pendingLogs := rest\<rparr>))) \<and>
         pendingBelowMax (snd (addToCache change (d\<lparr>pendingLogs := rest\<rparr>))) \<and>
         nextSequence d \<le> nextSequence (snd (addToCache change (d\<lparr>pendingLogs := rest\<rparr>)))"
proof -
  let ?d' = "snd (addToCache change (d\<lparr>pendingLogs := rest\<rparr>))"
  have notMax: "Sequence change \<noteq> - 1"
    using below pending by (simp add: pendingBelowMax_def)
  then have lt: "Sequence change < Sequence change + 1"
    using word_lt_succ [OF word_lt_max] by blast
  have nx: "nextSequence ?d' = Sequence change + 1"
    using isNext by (simp add: addToCache_next)
  have pd: "pendingLogs ?d' = rest" and rc: "receivedSeqs ?d' = receivedSeqs d"
    using addToCache_keeps [of change "d\<lparr>pendingLogs := rest\<rparr>"] by simp_all
  have above: "Sequence change < Sequence e" if "e \<in> set rest" for e
    using inv pending that by (auto simp add: pendingInv_def)
  have "Sequence change + 1 \<le> Sequence e" if "e \<in> set rest" for e
    using above [OF that] by (rule inc_le)
  moreover have "Sequence e \<in> receivedSeqs d" if "e \<in> set rest" for e
    using inv pending that by (auto simp add: pendingInv_def list_all_iff)
  moreover have "sorted_wrt (<) (map Sequence rest)"
    using inv pending by (simp add: pendingInv_def)
  moreover have "Sequence change + 1 \<noteq> 0"
    using lt by (rule word_succ_nonzero [of "Sequence change" "Sequence change + 1"])
  ultimately have "pendingInv ?d'"
    by (simp add: pendingInv_def nx pd rc list_all_iff)
  moreover have "pendingBelowMax ?d'"
    using below pending by (simp add: pendingBelowMax_def pd)
  moreover have "nextSequence d \<le> nextSequence ?d'"
    using lt isNext by (simp add: nx less_imp_le)
  ultimately show ?thesis by blast
qed

text \<open>One round of skipping keeps the state of the queue.\<close>

lemma skip_keeps:
  assumes inv: "pendingInv d"
    and pending: "pendingLogs d = change # rest" and notNext: "Sequence change \<noteq> nextSequence d"
  shows "pendingInv ((PushSkipped now (nextSequence d) d)\<lparr>nextSequence := nextSequence d + 1\<rparr>) \<and>
         nextSequence d \<le> nextSequence d + 1"
proof -
  have "nextSequence d \<le> Sequence change"
    using inv pending by (simp add: pendingInv_def)
  with notNext have lt: "nextSequence d < Sequence change" by simp
  have first: "nextSequence d + 1 \<le> Sequence change"
    using lt by (rule inc_le)
  have "nextSequence d + 1 \<le> Sequence e" if "e \<in> set rest" for e
  proof -
    have "Sequence change < Sequence e"
      using inv pending that by (auto simp add: pendingInv_def)
    with first show ?thesis by simp
  qed
  moreover have "nextSequence d + 1 \<noteq> 0"
    using lt by (rule word_succ_nonzero)
  moreover have "nextSequence d \<le> nextSequence d + 1"
    using word_lt_succ [OF lt] by (simp add: less_imp_le)
  ultimately show ?thesis
    using inv pending first by (simp add: pendingInv_def PushSkipped_def list_all_iff)
qed

lemma loop_monotone:
  assumes inv: "pendingInv c" and below: "pendingBelowMax c"
  shows "pendingInv (snd (addPendingLogsLoop now changed c)) \<and>
         pendingBelowMax (snd (addPendingLogsLoop now changed c)) \<and>
         nextSequence c \<le> nextSequence (snd (addPendingLogsLoop now changed c))"
proof (rule loop_invariant
    [where I = "\<lambda>d. pendingInv d \<and> pendingBelowMax d \<and> nextSequence c \<le> nextSequence d"])
  show "pendingInv c \<and> pendingBelowMax c \<and> nextSequence c \<le> nextSequence c"
    using inv below by simp
next
  fix d :: changeCache and change rest
  assume d: "pendingInv d \<and> pendingBelowMax d \<and> nextSequence c \<le> nextSequence d"
    and pending: "pendingLogs d = change # rest" and isNext: "Sequence change = nextSequence d"
  have "pendingInv (snd (addToCache change (d\<lparr>pendingLogs := rest\<rparr>))) \<and>
        pendingBelowMax (snd (addToCache change (d\<lparr>pendingLogs := rest\<rparr>))) \<and>
        nextSequence d \<le> nextSequence (snd (addToCache change (d\<lparr>pendingLogs := rest\<rparr>)))"
    using d pending isNext by (intro pop_keeps) simp_all
  with d show "pendingInv (snd (addToCache change (d\<lparr>pendingLogs := rest\<rparr>))) \<and>
        pendingBelowMax (snd (addToCache change (d\<lparr>pendingLogs := rest\<rparr>))) \<and>
        nextSequence c \<le> nextSequence (snd (addToCache change (d\<lparr>pendingLogs := rest\<rparr>)))"
    by auto
next
  fix d :: changeCache and change rest
  assume d: "pendingInv d \<and> pendingBelowMax d \<and> nextSequence c \<le> nextSequence d"
    and pending: "pendingLogs d = change # rest" and notNext: "Sequence change \<noteq> nextSequence d"
  have "pendingInv ((PushSkipped now (nextSequence d) d)\<lparr>nextSequence := nextSequence d + 1\<rparr>) \<and>
        nextSequence d \<le> nextSequence d + 1"
    using d pending notNext by (intro skip_keeps) simp_all
  moreover have "pendingBelowMax ((PushSkipped now (nextSequence d) d)\<lparr>nextSequence := nextSequence d + 1\<rparr>)"
    using d by (simp add: pendingBelowMax_def PushSkipped_def)
  ultimately show "pendingInv ((PushSkipped now (nextSequence d) d)\<lparr>nextSequence := nextSequence d + 1\<rparr>) \<and>
        pendingBelowMax ((PushSkipped now (nextSequence d) d)\<lparr>nextSequence := nextSequence d + 1\<rparr>) \<and>
        nextSequence c \<le> nextSequence ((PushSkipped now (nextSequence d) d)\<lparr>nextSequence := nextSequence d + 1\<rparr>)"
    using d by auto
qed


lemma processEntry_monotone:
  assumes inv: "pendingInv c" and below: "pendingBelowMax c" and notMax: "Sequence change \<noteq> - 1"
  shows "pendingInv (snd (processEntry now change c)) \<and>
         pendingBelowMax (snd (processEntry now change c)) \<and>
         nextSequence c \<le> nextSequence (snd (processEntry now change c))"
proof (cases "logsDisabled c \<or> Sequence change \<in> receivedSeqs c")
  case True
  then have "snd (processEntry now change c) = c"
    by (auto simp add: processEntry_def Let_def)
  with inv below show ?thesis by simp
next
  case fresh: False
  let ?seq = "Sequence change"
  let ?c1 = "c\<lparr>receivedSeqs := insert ?seq (receivedSeqs c)\<rparr>"
  have sorted: "sorted_wrt (<) (map Sequence (pendingLogs c))"
    using inv by (simp add: pendingInv_def)
  have ahead: "nextSequence c \<le> Sequence e" and known: "Sequence e \<in> receivedSeqs c"
    if "e \<in> set (pendingLogs c)" for e
    using inv that by (auto simp add: pendingInv_def list_all_iff)
  have started: "nextSequence c \<noteq> 0 \<or> pendingLogs c = []"
    using inv by (simp add: pendingInv_def)
  have other: "Sequence e \<noteq> ?seq" if "e \<in> set (pendingLogs c)" for e
    using known [OF that] fresh by auto
  consider (expected) "?seq = nextSequence c \<or> nextSequence c = 0"
    | (later) "\<not> (?seq = nextSequence c \<or> nextSequence c = 0)" "?seq > nextSequence c"
    | (late) "\<not> (?seq = nextSequence c \<or> nextSequence c = 0)" "\<not> ?seq > nextSequence c"
        "?seq > initialSequence c"
    | (old) "\<not> (?seq = nextSequence c \<or> nextSequence c = 0)" "\<not> ?seq > nextSequence c"
        "\<not> ?seq > initialSequence c"
    by blast
  then show ?thesis
  proof cases
    case expected
    obtain a c2 where r: "addToCache change ?c1 = (a, c2)" by force
    obtain b c3 where s: "addPendingLogs now c2 = (b, c3)" by force
    have res: "snd (processEntry now change c) = c3"
      using fresh expected r s by (simp add: processEntry_def Let_def)
    have ge: "nextSequence c \<le> ?seq"
      using expected by auto
    have nx: "nextSequence c2 = ?seq + 1"
      using addToCache_next [of change ?c1] r ge by simp
    have pd: "pendingLogs c2 = pendingLogs c" and rc: "receivedSeqs c2 = insert ?seq (receivedSeqs c)"
      using addToCache_keeps [of change ?c1] r by simp_all
    have lt: "?seq < ?seq + 1"
      using word_lt_succ [OF word_lt_max [OF notMax]] .
    have "?seq + 1 \<le> Sequence e" if "e \<in> set (pendingLogs c)" for e
    proof -
      from that have "pendingLogs c \<noteq> []" by auto
      with started expected have "?seq = nextSequence c" by auto
      with ahead [OF that] other [OF that] have "?seq < Sequence e" by simp
      then show ?thesis by (rule inc_le)
    qed
    moreover have "?seq + 1 \<noteq> 0"
      using lt by (rule word_succ_nonzero)
    ultimately have inv2: "pendingInv c2"
      using sorted known by (simp add: pendingInv_def nx pd rc list_all_iff)
    have below2: "pendingBelowMax c2"
      using below by (simp add: pendingBelowMax_def pd)
    have mono2: "nextSequence c \<le> nextSequence c2"
      using ge lt by (simp add: nx less_imp_le)
    have "pendingInv c3 \<and> pendingBelowMax c3 \<and> nextSequence c2 \<le> nextSequence c3"
      using loop_monotone [OF inv2 below2, of now "{}"] s by (simp add: addPendingLogs_def)
    with mono2 res show ?thesis by auto
  next
    case later
    let ?c2 = "?c1\<lparr>pendingLogs := heap_Push change (pendingLogs ?c1)\<rparr>"
    have res: "snd (processEntry now change c) =
        (if int (length (pendingLogs ?c2)) > CachePendingSeqMaxNum (options ?c2)
         then snd (addPendingLogs now ?c2) else ?c2)"
      using fresh later by (simp add: processEntry_def Let_def)
    have "?seq \<notin> Sequence ` set (pendingLogs c)"
    proof
      assume "?seq \<in> Sequence ` set (pendingLogs c)"
      then obtain e where e: "e \<in> set (pendingLogs c)" and s: "?seq = Sequence e"
        by (rule imageE)
      from other [OF e] s show False by simp
    qed
    with sorted have "sorted_wrt (<) (map Sequence (insort_key Sequence change (pendingLogs c)))"
      by (rule sorted_wrt_insort_key)
    moreover have "nextSequence c \<le> ?seq"
      using later by (simp add: less_imp_le)
    ultimately have inv2: "pendingInv ?c2"
      using ahead known later
      by (auto simp add: pendingInv_def heap_Push_def list_all_iff set_insort_key)
    have below2: "pendingBelowMax ?c2"
      using below notMax by (auto simp add: pendingBelowMax_def heap_Push_def list_all_iff set_insort_key)
    have "pendingInv (snd (addPendingLogs now ?c2)) \<and> pendingBelowMax (snd (addPendingLogs now ?c2)) \<and>
          nextSequence ?c2 \<le> nextSequence (snd (addPendingLogs now ?c2))"
      using loop_monotone [OF inv2 below2, of now "{}"] by (simp add: addPendingLogs_def)
    with inv2 below2 res show ?thesis by auto
  next
    case late
    let ?ch = "if \<not> WasSkipped ?seq ?c1 then change else change\<lparr>Skipped := True\<rparr>"
    obtain a c2 where r: "addToCache ?ch ?c1 = (a, c2)" by force
    have res: "snd (processEntry now change c) = RemoveSkipped ?seq c2"
      using fresh late r by (simp add: processEntry_def Let_def)
    have sq: "Sequence ?ch = ?seq" by simp
    have "\<not> nextSequence c \<le> ?seq"
      using late by auto
    then have nx: "nextSequence c2 = nextSequence c"
      using addToCache_next [of ?ch ?c1] r sq by simp
    have pd: "pendingLogs c2 = pendingLogs c" and rc: "receivedSeqs c2 = insert ?seq (receivedSeqs c)"
      using addToCache_keeps [of ?ch ?c1] r by simp_all
    have "pendingInv (RemoveSkipped ?seq c2)"
      using inv by (auto simp add: pendingInv_def RemoveSkipped_def nx pd rc list_all_iff)
    moreover have "pendingBelowMax (RemoveSkipped ?seq c2)"
      using below by (simp add: pendingBelowMax_def RemoveSkipped_def pd)
    ultimately show ?thesis
      using res by (simp add: RemoveSkipped_def nx)
  next
    case old
    then have res: "snd (processEntry now change c) = ?c1"
      using fresh by (simp add: processEntry_def Let_def)
    have "pendingInv ?c1"
      using inv by (auto simp add: pendingInv_def list_all_iff)
    moreover have "pendingBelowMax ?c1"
      using below by (simp add: pendingBelowMax_def)
    ultimately show ?thesis using res by simp
  qed
qed

lemma CleanUp_monotone:
  assumes inv: "pendingInv c" and below: "pendingBelowMax c"
  shows "pendingInv (snd (CleanUp now c)) \<and> pendingBelowMax (snd (CleanUp now c)) \<and>
         nextSequence c \<le> nextSequence (snd (CleanUp now c))"
proof -
  obtain a c1 where r: "addPendingLogs now c = (a, c1)" by force
  have c1: "pendingInv c1 \<and> pendingBelowMax c1 \<and> nextSequence c \<le> nextSequence c1"
    using loop_monotone [OF inv below, of now "{}"] r by (simp add: addPendingLogs_def)
  let ?c2 = "notifyChange a c1"
  have "snd (CleanUp now c) =
          ?c2\<lparr>channelCaches :=
                (\<lambda>channelName.
                   map_option (cache_pruneCache (ChannelOptions (options ?c2)) now)
                     (channelCaches ?c2 channelName))\<rparr>"
    using r by (simp add: CleanUp_def Let_def)
  then show ?thesis
    using c1 by (simp add: notifyChange_def pendingInv_def pendingBelowMax_def)
qed

lemma Clear_keeps:
  assumes inv: "pendingInv c" and below: "pendingBelowMax c"
  shows "pendingInv (fst (Clear lastSequence c)) \<and> pendingBelowMax (fst (Clear lastSequence c)) \<and>
         nextSequence (fst (Clear lastSequence c)) = nextSequence c"
proof -
  obtain v e where l: "lastSequence = (v, e)" by force
  show ?thesis
    using inv below l
    by (cases e) (simp_all add: Clear_def pendingInv_def pendingBelowMax_def)
qed

text \<open>
  C9. The spec states that \<open>nextSequence\<close> never decreases. The counter has 64 bits and
  \<^verbatim>\<open>_addToCache\<close> sets it to the sequence of the entry plus one: an entry with the largest
  sequence wraps it to zero.
\<close>

theorem nextSequence_wraps_counterexample:
  "nextSequence (initCache (testOptions 1) (- 2)) = - 1 \<and>
   nextSequence (snd (processEntry 0 (placeholder (- 1) 0) (initCache (testOptions 1) (- 2)))) = 0 \<and>
   nextSequence (snd (processEntry 0 (placeholder (- 1) 0) (initCache (testOptions 1) (- 2))))
     < nextSequence (initCache (testOptions 1) (- 2))"
  by code_simp

text \<open>
  C9, as amended. In a cache whose pending queue is in the state the operations keep it in,
  and as long as no entry carries the largest sequence \<open>2^64 - 1\<close>, none of
  \<^verbatim>\<open>processEntry\<close>, \<^verbatim>\<open>_addToCache\<close>, \<^verbatim>\<open>_addPendingLogs\<close>, \<^verbatim>\<open>CleanUp\<close> and \<^verbatim>\<open>Clear\<close>
  decreases \<open>nextSequence\<close>, and the operations of the interface leave the queue in that
  state.
\<close>

theorem nextSequence_monotone:
  assumes "pendingInv c" and "pendingBelowMax c" and "Sequence change \<noteq> - 1"
  shows "nextSequence c \<le> nextSequence (snd (processEntry now change c)) \<and>
         nextSequence c \<le> nextSequence (snd (addToCache change c)) \<and>
         nextSequence c \<le> nextSequence (snd (addPendingLogs now c)) \<and>
         nextSequence c \<le> nextSequence (snd (CleanUp now c)) \<and>
         nextSequence c \<le> nextSequence (fst (Clear lastSequence c)) \<and>
         pendingInv (snd (processEntry now change c)) \<and>
         pendingBelowMax (snd (processEntry now change c)) \<and>
         pendingInv (snd (addPendingLogs now c)) \<and>
         pendingBelowMax (snd (addPendingLogs now c)) \<and>
         pendingInv (snd (CleanUp now c)) \<and>
         pendingBelowMax (snd (CleanUp now c)) \<and>
         pendingInv (fst (Clear lastSequence c)) \<and>
         pendingBelowMax (fst (Clear lastSequence c))"
  using processEntry_monotone [OF assms, of now]
    addToCache_monotone [OF assms(3), of c]
    loop_monotone [OF assms(1) assms(2), of now "{}"]
    CleanUp_monotone [OF assms(1) assms(2), of now]
    Clear_keeps [OF assms(1) assms(2), of lastSequence]
  by (simp add: addPendingLogs_def)

theorem nextSequence_monotone_witness:
  "pendingInv (snd (processEntry 0 (placeholder 3 0) (initCache (testOptions 1) 0))) \<and>
   pendingBelowMax (snd (processEntry 0 (placeholder 3 0) (initCache (testOptions 1) 0))) \<and>
   Sequence (placeholder 5 1) \<noteq> - 1 \<and>
   nextSequence (snd (processEntry 0 (placeholder 3 0) (initCache (testOptions 1) 0))) = 1 \<and>
   nextSequence (snd (processEntry 1 (placeholder 5 1)
      (snd (processEntry 0 (placeholder 3 0) (initCache (testOptions 1) 0))))) = 4 \<and>
   nextSequence (snd (processEntry 0 (placeholder 3 0) (initCache (testOptions 1) 0)))
     \<le> nextSequence (snd (processEntry 1 (placeholder 5 1)
          (snd (processEntry 0 (placeholder 3 0) (initCache (testOptions 1) 0)))))"
proof -
  let ?c = "snd (processEntry 0 (placeholder 3 0) (initCache (testOptions 1) 0))"
  have i: "pendingInv ?c" by code_simp
  have b: "pendingBelowMax ?c" by code_simp
  have m: "Sequence (placeholder 5 1) \<noteq> - 1" by (simp add: placeholder_def)
  have n1: "nextSequence ?c = 1" by code_simp
  have n2: "nextSequence (snd (processEntry 1 (placeholder 5 1) ?c)) = 4" by code_simp
  have "nextSequence ?c \<le> nextSequence (snd (processEntry 1 (placeholder 5 1) ?c))"
    using nextSequence_monotone [OF i b m, of 1] by blast
  with i b m n1 n2 show ?thesis by blast
qed


section \<open>Unused ranges\<close>

lemma word_le_iff_succ: "(a :: uint64) < b \<Longrightarrow> (a \<le> x) = (x = a \<or> a + 1 \<le> x)"
  by unat_arith

lemma word_unat_succ: "(a :: uint64) < b \<Longrightarrow> unat (a + 1) = Suc (unat a)"
  by unat_arith

text \<open>A placeholder for the expected sequence, with nothing pending, moves \<open>nextSequence\<close>
  one step and changes nothing but the received sequences.\<close>

lemma release_step:
  assumes "\<not> logsDisabled c" and "pendingLogs c = []" and "nextSequence c = s"
    and "s \<notin> receivedSeqs c"
  shows "releaseUnusedSequence now s c =
           c\<lparr>receivedSeqs := insert s (receivedSeqs c), nextSequence := s + 1\<rparr>"
proof -
  let ?c1 = "c\<lparr>receivedSeqs := insert s (receivedSeqs c)\<rparr>"
  have a: "addToCache (placeholder s now) ?c1 = ({}, ?c1\<lparr>nextSequence := s + 1\<rparr>)"
    using assms(3) by (simp add: addToCache_placeholder placeholder_def)
  have l: "addPendingLogs now (?c1\<lparr>nextSequence := s + 1\<rparr>) = ({}, ?c1\<lparr>nextSequence := s + 1\<rparr>)"
    using assms(2) by (simp add: addPendingLogs_def loop_empty)
  have "processEntry now (placeholder s now) c = ({}, ?c1\<lparr>nextSequence := s + 1\<rparr>)"
    using assms a l by (simp add: processEntry_def Let_def placeholder_def)
  then show ?thesis
    by (simp add: releaseUnusedSequence_def notifyChange_def)
qed

lemma release_range:
  assumes "\<not> logsDisabled c" and "pendingLogs c = []" and "nextSequence c = s"
    and "s \<le> b" and "b \<noteq> - 1" and "\<forall>t. s \<le> t \<and> t \<le> b \<longrightarrow> t \<notin> receivedSeqs c"
  shows "releaseUnusedRange clock s b c =
           Some (c\<lparr>receivedSeqs := receivedSeqs c \<union> {s..b}, nextSequence := b + 1\<rparr>)"
  using assms
proof (induction "unat b - unat s" arbitrary: s c)
  case 0
  then have sb: "s = b"
    by (simp add: word_le_nat_alt word_unat_eq_iff)
  have fresh: "b \<notin> receivedSeqs c" using "0.prems" sb by simp
  have step: "releaseUnusedSequence (clock b) b c =
                c\<lparr>receivedSeqs := insert b (receivedSeqs c), nextSequence := b + 1\<rparr>"
    using "0.prems" sb fresh by (intro release_step) simp_all
  have "b < b + 1"
    using word_lt_succ [OF word_lt_max [OF "0.prems"(5)]] .
  then have stop: "\<not> b + 1 \<le> b" by simp
  have "releaseUnusedRange clock b b c =
          releaseUnusedRange clock (b + 1) b (releaseUnusedSequence (clock b) b c)"
    by (subst releaseUnusedRange.simps) simp
  also have "\<dots> = Some (releaseUnusedSequence (clock b) b c)"
    using stop by (subst releaseUnusedRange.simps) simp
  finally show ?case
    using sb step by simp
next
  case (Suc n)
  then have lt: "s < b"
    by (simp add: word_less_nat_alt)
  have fresh: "s \<notin> receivedSeqs c" using Suc.prems by simp
  let ?c1 = "c\<lparr>receivedSeqs := insert s (receivedSeqs c), nextSequence := s + 1\<rparr>"
  have step: "releaseUnusedSequence (clock s) s c = ?c1"
    using Suc.prems fresh by (intro release_step) simp_all
  have us: "unat (s + 1) = Suc (unat s)"
    using lt by (rule word_unat_succ)
  have n: "n = unat b - unat (s + 1)"
    using Suc.hyps(2) us by simp
  have le: "s + 1 \<le> b" using lt by (rule inc_le)
  have ss: "s < s + 1" using lt by (rule word_lt_succ)
  have fresh1: "\<forall>t. s + 1 \<le> t \<and> t \<le> b \<longrightarrow> t \<notin> receivedSeqs ?c1"
  proof (intro allI impI)
    fix t assume t: "s + 1 \<le> t \<and> t \<le> b"
    with ss have "s < t" by (auto elim: less_le_trans)
    then have "s \<le> t" and "t \<noteq> s" by simp_all
    with t Suc.prems(6) show "t \<notin> receivedSeqs ?c1" by simp
  qed
  have ih: "releaseUnusedRange clock (s + 1) b ?c1 =
          Some (?c1\<lparr>receivedSeqs := receivedSeqs ?c1 \<union> {s + 1..b}, nextSequence := b + 1\<rparr>)"
    using Suc.prems le fresh1 by (intro Suc.hyps(1) [OF n]) simp_all
  have "x \<in> {s..b} \<longleftrightarrow> x = s \<or> x \<in> {s + 1..b}" for x
  proof (cases "x = s")
    case True
    with lt show ?thesis by (simp add: less_imp_le)
  next
    case False
    with word_le_iff_succ [OF lt, of x] show ?thesis by simp
  qed
  then have "{s..b} = insert s {s + 1..b}" by blast
  then have set: "insert s (receivedSeqs c) \<union> {s + 1..b} = receivedSeqs c \<union> {s..b}"
    by blast
  have "releaseUnusedRange clock s b c =
          releaseUnusedRange clock (s + 1) b (releaseUnusedSequence (clock s) s c)"
    using Suc.prems(4) by (subst releaseUnusedRange.simps) simp
  then show ?case
    using step ih set by simp
qed

lemma Split_range_key:
  assumes "CHR '':'' \<notin> set p" and "CHR '':'' \<notin> set q"
  shows "Split (p @ '':'' @ q @ '':'' @ FormatUint a @ '':'' @ FormatUint b) (CHR '':'')
           = [p, q, FormatUint a, FormatUint b]"
  using assms by (simp add: Split_append_sep Split_no_sep colon_notin_FormatUint)

text \<open>
  C4. The spec gives the key of the marker as \<open>unusedSeqs:from:<a>:to:<b>\<close>.
  \<^verbatim>\<open>processUnusedSequenceRange\<close> splits the key at the colons, returns at once unless there
  are exactly four parts, and reads the third and the fourth as the bounds: the key of the
  spec has five parts, and nothing happens.
\<close>

theorem unused_range_key_counterexample:
  "nextSequence (initCache (testOptions 1) 4) = 5 \<and>
   processUnusedSequenceRange (fixedClock 0) ''unusedSeqs:from:5:to:7'' (initCache (testOptions 1) 4)
     = Some (initCache (testOptions 1) 4)"
  by (simp add: processUnusedSequenceRange_def initCache_def setInitialSequence_def)

text \<open>
  C4, as amended. A marker whose key has four parts separated by colons, the third and the
  fourth the decimal bounds \<open>a\<close> and \<open>b\<close> (as in \<open>_sync:unusedSeqs:<a>:<b>\<close>), submitted
  to a cache that accepts entries, has nothing pending, expects \<open>a\<close> next and has received
  none of \<open>a..b\<close>, with \<open>a \<le> b < 2^64 - 1\<close>, produces one placeholder per sequence:
  \<open>nextSequence\<close> and \<open>LastSequence()\<close> grow by \<open>b - a + 1\<close>, no channel cache changes
  and no listener is called.
\<close>

theorem unused_range_advances:
  assumes "CHR '':'' \<notin> set p" and "CHR '':'' \<notin> set q"
    and "\<not> logsDisabled c" and "pendingLogs c = []" and "nextSequence c = a"
    and "a \<le> b" and "b \<noteq> - 1"
    and "\<forall>t. a \<le> t \<and> t \<le> b \<longrightarrow> t \<notin> receivedSeqs c"
  shows "\<exists>c'. processUnusedSequenceRange clock
                 (p @ '':'' @ q @ '':'' @ FormatUint a @ '':'' @ FormatUint b) c = Some c' \<and>
              nextSequence c' = nextSequence c + (b - a + 1) \<and>
              LastSequence c' = LastSequence c + (b - a + 1) \<and>
              channelCaches c' = channelCaches c \<and>
              notified c' = notified c \<and>
              pendingLogs c' = [] \<and>
              skippedSeqs c' = skippedSeqs c \<and>
              receivedSeqs c' = receivedSeqs c \<union> {a..b}"
proof -
  let ?c' = "c\<lparr>receivedSeqs := receivedSeqs c \<union> {a..b}, nextSequence := b + 1\<rparr>"
  have loop: "releaseUnusedRange clock a b c = Some ?c'"
    using assms(3-8) by (rule release_range)
  have "processUnusedSequenceRange clock
          (p @ '':'' @ q @ '':'' @ FormatUint a @ '':'' @ FormatUint b) c
        = releaseUnusedRange clock a b c"
    using Split_range_key [OF assms(1) assms(2), of a b]
    by (simp add: processUnusedSequenceRange_def Let_def ParseUint_FormatUint)
  with loop have "processUnusedSequenceRange clock
          (p @ '':'' @ q @ '':'' @ FormatUint a @ '':'' @ FormatUint b) c = Some ?c'"
    by simp
  moreover have "nextSequence ?c' = nextSequence c + (b - a + 1)"
    using assms(5) by simp
  moreover have "LastSequence ?c' = LastSequence c + (b - a + 1)"
    using assms(5) by (simp add: LastSequence_def)
  ultimately show ?thesis
    using assms(4) by (intro exI [of _ ?c']) simp
qed

theorem unused_range_advances_witness:
  "map_option nextSequence
     (processUnusedSequenceRange (fixedClock 0) ''_sync:unusedSeqs:5:7'' (initCache (testOptions 1) 4))
     = Some 8 \<and>
   map_option LastSequence
     (processUnusedSequenceRange (fixedClock 0) ''_sync:unusedSeqs:5:7'' (initCache (testOptions 1) 4))
     = Some 7 \<and>
   nextSequence (initCache (testOptions 1) 4) = 5 \<and>
   LastSequence (initCache (testOptions 1) 4) = 4 \<and>
   map_option notified
     (processUnusedSequenceRange (fixedClock 0) ''_sync:unusedSeqs:5:7'' (initCache (testOptions 1) 4))
     = Some []"
proof -
  let ?c = "initCache (testOptions 1) 4"
  have f5: "FormatUint (5 :: uint64) = ''5''" and f7: "FormatUint (7 :: uint64) = ''7''"
    by (simp_all add: FormatUint_def digitsOf.simps digitChar_def)
  have key: "''_sync'' @ '':'' @ ''unusedSeqs'' @ '':'' @ FormatUint (5 :: uint64) @ '':'' @ FormatUint (7 :: uint64)
               = ''_sync:unusedSeqs:5:7''"
    by (simp add: f5 f7)
  have p: "CHR '':'' \<notin> set ''_sync''" and q: "CHR '':'' \<notin> set ''unusedSeqs''"
    by simp_all
  have c1: "\<not> logsDisabled ?c" and c2: "pendingLogs ?c = []" and c3: "nextSequence ?c = 5"
    and c6: "\<forall>t. (5 :: uint64) \<le> t \<and> t \<le> 7 \<longrightarrow> t \<notin> receivedSeqs ?c"
    and c7: "notified ?c = []" and c8: "LastSequence ?c = 4"
    by (simp_all add: initCache_def setInitialSequence_def LastSequence_def)
  have le: "(5 :: uint64) \<le> 7" and nm: "(7 :: uint64) \<noteq> - 1"
    by simp_all
  from unused_range_advances [OF p q c1 c2 c3 le nm c6, of "fixedClock 0"]
  obtain c' where
    "processUnusedSequenceRange (fixedClock 0) ''_sync:unusedSeqs:5:7'' ?c = Some c'"
    and "nextSequence c' = nextSequence ?c + (7 - 5 + 1)"
    and "LastSequence c' = LastSequence ?c + (7 - 5 + 1)"
    and "notified c' = notified ?c"
    unfolding key by blast
  then show ?thesis
    using c3 c7 c8 by simp
qed


section \<open>Overflow of the pending queue\<close>

text \<open>An entry ahead of the next sequence is put on the queue; the queue is drained only
  when it is then longer than the bound.\<close>

lemma defer_step:
  assumes "\<not> logsDisabled c" and "nextSequence c \<noteq> 0" and "nextSequence c < Sequence e"
    and "Sequence e \<notin> receivedSeqs c"
  shows "processEntry t e c =
           (let c2 = c\<lparr>receivedSeqs := insert (Sequence e) (receivedSeqs c),
                        pendingLogs := insort_key Sequence e (pendingLogs c)\<rparr>
            in if int (length (pendingLogs c)) + 1 > CachePendingSeqMaxNum (options c)
               then addPendingLogs t c2 else ({}, c2))"
proof -
  have "Sequence e \<noteq> nextSequence c" using assms(3) by auto
  then show ?thesis
    using assms by (simp add: processEntry_def Let_def heap_Push_def)
qed

lemma processEntries_Cons:
  "processEntries ((t, e) # es) c = processEntries es (snd (processEntry t e c))"
  by (simp add: processEntries_def)

lemma processEntries_snoc:
  "processEntries (es @ [(t, e)]) c = snd (processEntry t e (processEntries es c))"
  by (simp add: processEntries_def)

lemma submit_pending:
  assumes "\<not> logsDisabled c" and "nextSequence c \<noteq> 0"
    and "sorted_wrt (<) (map Sequence (pendingLogs c))"
    and "\<forall>p\<in>set (pendingLogs c). Sequence p \<in> receivedSeqs c"
    and "\<forall>x\<in>set es. nextSequence c < Sequence (snd x) \<and> Sequence (snd x) \<notin> receivedSeqs c"
    and "distinct (map (\<lambda>x. Sequence (snd x)) es)"
    and "int (length (pendingLogs c) + length es) \<le> CachePendingSeqMaxNum (options c)"
  shows "\<exists>P. processEntries es c =
               c\<lparr>receivedSeqs := receivedSeqs c \<union> (\<lambda>x. Sequence (snd x)) ` set es, pendingLogs := P\<rparr> \<and>
             sorted_wrt (<) (map Sequence P) \<and>
             set P = set (pendingLogs c) \<union> snd ` set es \<and>
             length P = length (pendingLogs c) + length es"
  using assms
proof (induction es arbitrary: c)
  case Nil
  have "processEntries [] c = c\<lparr>receivedSeqs := receivedSeqs c \<union> (\<lambda>x. Sequence (snd x)) ` set [],
                                 pendingLogs := pendingLogs c\<rparr>"
    by (simp add: processEntries_def)
  with Nil.prems(3) show ?case
    by (intro exI [of _ "pendingLogs c"]) simp
next
  case (Cons x es)
  obtain t e where x: "x = (t, e)" by force
  let ?c2 = "c\<lparr>receivedSeqs := insert (Sequence e) (receivedSeqs c),
                pendingLogs := insort_key Sequence e (pendingLogs c)\<rparr>"
  have ahead: "nextSequence c < Sequence e" and fresh: "Sequence e \<notin> receivedSeqs c"
    using Cons.prems(5) x by simp_all
  have room: "\<not> int (length (pendingLogs c)) + 1 > CachePendingSeqMaxNum (options c)"
    using Cons.prems(7) by simp
  have step: "processEntry t e c = ({}, ?c2)"
    using defer_step [OF Cons.prems(1) Cons.prems(2) ahead fresh, of t] room
    by (simp add: Let_def)
  have "Sequence e \<notin> Sequence ` set (pendingLogs c)"
  proof
    assume "Sequence e \<in> Sequence ` set (pendingLogs c)"
    then obtain p where p: "p \<in> set (pendingLogs c)" and s: "Sequence e = Sequence p"
      by (rule imageE)
    from Cons.prems(4) p have "Sequence p \<in> receivedSeqs c" by blast
    with s fresh show False by simp
  qed
  with Cons.prems(3)
  have sorted2: "sorted_wrt (<) (map Sequence (pendingLogs ?c2))"
    by (simp add: sorted_wrt_insort_key)
  have known2: "\<forall>p\<in>set (pendingLogs ?c2). Sequence p \<in> receivedSeqs ?c2"
    using Cons.prems(4) by (auto simp add: set_insort_key)
  have rest2: "\<forall>y\<in>set es. nextSequence ?c2 < Sequence (snd y) \<and> Sequence (snd y) \<notin> receivedSeqs ?c2"
  proof
    fix y assume y: "y \<in> set es"
    with Cons.prems(5) have a: "nextSequence c < Sequence (snd y)"
      and b: "Sequence (snd y) \<notin> receivedSeqs c" by simp_all
    have "Sequence (snd y) \<noteq> Sequence e"
      using Cons.prems(6) y x by (auto simp add: image_iff)
    with a b show "nextSequence ?c2 < Sequence (snd y) \<and> Sequence (snd y) \<notin> receivedSeqs ?c2"
      by simp
  qed
  have dist2: "distinct (map (\<lambda>x. Sequence (snd x)) es)"
    using Cons.prems(6) by simp
  have room2: "int (length (pendingLogs ?c2) + length es) \<le> CachePendingSeqMaxNum (options ?c2)"
    using Cons.prems(7) by simp
  have d2: "\<not> logsDisabled ?c2" and n2: "nextSequence ?c2 \<noteq> 0"
    using Cons.prems(1) Cons.prems(2) by simp_all
  obtain P where P: "processEntries es ?c2 =
               ?c2\<lparr>receivedSeqs := receivedSeqs ?c2 \<union> (\<lambda>x. Sequence (snd x)) ` set es, pendingLogs := P\<rparr>"
    and sP: "sorted_wrt (<) (map Sequence P)"
    and setP: "set P = set (pendingLogs ?c2) \<union> snd ` set es"
    and lenP: "length P = length (pendingLogs ?c2) + length es"
    using Cons.IH [OF d2 n2 sorted2 known2 rest2 dist2 room2] by blast
  have "processEntries (x # es) c =
          c\<lparr>receivedSeqs := receivedSeqs c \<union> (\<lambda>x. Sequence (snd x)) ` set (x # es), pendingLogs := P\<rparr>"
    using P step x by (simp add: processEntries_Cons)
  moreover have "set P = set (pendingLogs c) \<union> snd ` set (x # es)"
    using setP x by (auto simp add: set_insort_key)
  moreover have "length P = length (pendingLogs c) + length (x # es)"
    using lenP by simp
  ultimately show ?case using sP by blast
qed


text \<open>
  Draining a queue that is one entry over its bound: the loop skips every sequence from
  \<open>nextSequence\<close> up to the sequence at the front of the queue, pops the front, and then
  stops, the queue being within its bound, its next entry not contiguous and not waiting
  for too long.
\<close>

lemma drain_overflow:
  assumes pending: "pendingLogs c = h # rest"
    and sorted: "sorted_wrt (<) (map Sequence (h # rest))"
    and over: "int (length (h # rest)) > CachePendingSeqMaxNum (options c)"
    and bound: "int (length rest) \<le> CachePendingSeqMaxNum (options c)"
    and ahead: "nextSequence c \<le> Sequence h"
    and noSkipped: "skippedList (skippedSeqs c) = []"
    and gap: "\<forall>e\<in>set rest. Sequence e \<noteq> Sequence h + 1"
    and recent: "\<forall>e\<in>set rest. now - TimeReceived e < CachePendingSeqMaxWait (options c)"
  shows "map seq (skippedList (skippedSeqs (snd (addPendingLogsLoop now changed c))))
           = map word_of_nat [unat (nextSequence c) ..< unat (Sequence h)]"
proof -
  let ?A = "\<lambda>d. pendingLogs d = h # rest \<and> nextSequence c \<le> nextSequence d \<and>
                  nextSequence d \<le> Sequence h \<and>
                  map seq (skippedList (skippedSeqs d))
                    = map word_of_nat [unat (nextSequence c) ..< unat (nextSequence d)] \<and>
                  (\<forall>s\<in>set (skippedList (skippedSeqs d)). seq s < nextSequence d)"
  let ?B = "\<lambda>d. pendingLogs d = rest \<and> nextSequence d = Sequence h + 1 \<and>
                  map seq (skippedList (skippedSeqs d))
                    = map word_of_nat [unat (nextSequence c) ..< unat (Sequence h)]"
  let ?I = "\<lambda>d. options d = options c \<and> (?A d \<or> ?B d)"
  let ?final = "snd (addPendingLogsLoop now changed c)"
  have "?I ?final \<and> loopDone now ?final"
  proof (rule loop_invariant_done [where I = ?I])
    show "?I c"
      using pending ahead noSkipped by simp
  next
    fix d :: changeCache and change rest'
    assume d: "?I d" and pd: "pendingLogs d = change # rest'"
      and isNext: "Sequence change = nextSequence d"
    let ?d' = "snd (addToCache change (d\<lparr>pendingLogs := rest'\<rparr>))"
    have keeps: "pendingLogs ?d' = rest'" "skippedSeqs ?d' = skippedSeqs d" "options ?d' = options d"
      using addToCache_keeps [of change "d\<lparr>pendingLogs := rest'\<rparr>"] by simp_all
    have nx: "nextSequence ?d' = Sequence change + 1"
      using isNext by (simp add: addToCache_next)
    from d consider (a) "?A d" | (b) "?B d" by blast
    then show "?I ?d'"
    proof cases
      case a
      with pd have "change = h" and "rest' = rest" by simp_all
      with a isNext keeps nx d show ?thesis by simp
    next
      case b
      with pd have "change \<in> set rest" by simp
      with gap have "Sequence change \<noteq> Sequence h + 1" by blast
      with b isNext show ?thesis by simp
    qed
  next
    fix d :: changeCache and change rest'
    assume d: "?I d" and pd: "pendingLogs d = change # rest'"
      and notNext: "Sequence change \<noteq> nextSequence d"
      and forced: "int (length (pendingLogs d)) > CachePendingSeqMaxNum (options d)
                     \<or> now - TimeReceived change \<ge> CachePendingSeqMaxWait (options d)"
    let ?d' = "(PushSkipped now (nextSequence d) d)\<lparr>nextSequence := nextSequence d + 1\<rparr>"
    from d consider (a) "?A d" | (b) "?B d" by blast
    then show "?I ?d'"
    proof cases
      case a
      with pd have ch: "change = h" by simp
      with a notNext have lt: "nextSequence d < Sequence h" by (auto simp add: less_le)
      let ?l = "skippedSeqs d"
      have valid: "skippedList ?l = [] \<or> seq (last (skippedList ?l)) < nextSequence d"
      proof (cases "skippedList ?l = []")
        case True
        then show ?thesis by simp
      next
        case False
        then have "last (skippedList ?l) \<in> set (skippedList ?l)" by simp
        with a show ?thesis by blast
      qed
      then have pushed: "skippedList (skippedSeqs (PushSkipped now (nextSequence d) d))
                    = skippedList ?l @ [\<lparr>seq = nextSequence d, timeAdded = now\<rparr>]"
        by (simp add: PushSkipped_def Push_cases)
      have us: "unat (nextSequence d + 1) = Suc (unat (nextSequence d))"
        using lt by (rule word_unat_succ)
      have le: "unat (nextSequence c) \<le> unat (nextSequence d)"
        using a by (simp add: word_le_nat_alt)
      have seqs: "map seq (skippedList (skippedSeqs ?d'))
                    = map word_of_nat [unat (nextSequence c) ..< unat (nextSequence d + 1)]"
        using a le by (simp add: pushed us)
      have succ: "nextSequence d < nextSequence d + 1"
        using lt by (rule word_lt_succ)
      have below: "\<forall>s\<in>set (skippedList (skippedSeqs ?d')). seq s < nextSequence d + 1"
        using a succ by (auto simp add: pushed elim: less_trans)
      have "nextSequence d + 1 \<le> Sequence h"
        using lt by (rule inc_le)
      moreover have "nextSequence c \<le> nextSequence d + 1"
        using a succ by (auto elim: order_trans simp add: less_imp_le)
      moreover have "pendingLogs ?d' = h # rest"
        using a by (simp add: PushSkipped_def)
      moreover have "options ?d' = options c"
        using d by (simp add: PushSkipped_def)
      ultimately show ?thesis
        using seqs below by simp
    next
      case b
      with pd have "change \<in> set rest" and "length (pendingLogs d) = length rest" by simp_all
      with recent bound d forced show ?thesis by auto
    qed
  qed
  then have I: "?I ?final" and fin: "loopDone now ?final" by blast+
  have "\<not> ?A ?final"
  proof
    assume a: "?A ?final"
    with I over have "int (length (pendingLogs ?final)) > CachePendingSeqMaxNum (options ?final)"
      by simp
    with a fin show False by (simp add: loopDone_def)
  qed
  with I have "?B ?final" by blast
  then show ?thesis by simp
qed

text \<open>
  C3. The spec states that submitting \<open>maxPendingNum + 1\<close> non-contiguous sequences
  promotes exactly one sequence to the skipped list. The forced-progress path skips every
  sequence from \<open>nextSequence\<close> up to the smallest pending one: with \<open>nextSequence = 1\<close>,
  a bound of 2 and the sequences 3, 5 and 7, the sequences 1 and 2 are both promoted.
\<close>

theorem overflow_skips_two_counterexample:
  "nextSequence (initCache (testOptions 2) 0) = 1 \<and>
   CachePendingSeqMaxNum (options (initCache (testOptions 2) 0)) = 2 \<and>
   map seq (skippedList (skippedSeqs
      (processEntries [(0, placeholder 3 0), (0, placeholder 5 0), (0, placeholder 7 0)]
         (initCache (testOptions 2) 0)))) = [1, 2]"
  by code_simp

text \<open>
  C3, as amended. If \<open>maxPendingNum + 1\<close> distinct, pairwise non-contiguous sequences, all
  greater than \<open>nextSequence\<close> and none received before, are submitted through
  \<^verbatim>\<open>processEntry\<close> to a cache with nothing pending and nothing skipped, and none of them
  has waited \<open>maxPendingWait\<close> at the last submission, then the forced-progress path
  promotes to the skipped list exactly the sequences from \<open>nextSequence\<close> up to, and not
  including, the smallest submitted sequence: \<open>smallest - nextSequence\<close> of them, which is
  one exactly when the smallest submitted sequence is \<open>nextSequence + 1\<close>.
\<close>

theorem overflow_promotes_gap:
  assumes enabled: "\<not> logsDisabled c" and empty: "pendingLogs c = []"
    and started: "nextSequence c \<noteq> 0"
    and noSkipped: "skippedList (skippedSeqs c) = []"
    and count: "int (length es) = CachePendingSeqMaxNum (options c) + 1"
    and nonneg: "0 \<le> CachePendingSeqMaxNum (options c)"
    and dist: "distinct (map (\<lambda>x. Sequence (snd x)) es)"
    and ahead: "\<forall>x\<in>set es. nextSequence c < Sequence (snd x) \<and> Sequence (snd x) \<notin> receivedSeqs c"
    and gap: "\<forall>x\<in>set es. \<forall>y\<in>set es. Sequence (snd y) \<noteq> Sequence (snd x) + 1"
    and recent: "\<forall>x\<in>set es. fst (last es) - TimeReceived (snd x) < CachePendingSeqMaxWait (options c)"
    and low: "low \<in> set es" and least: "\<forall>x\<in>set es. Sequence (snd low) \<le> Sequence (snd x)"
  shows "map seq (skippedList (skippedSeqs (processEntries es c)))
           = map word_of_nat [unat (nextSequence c) ..< unat (Sequence (snd low))] \<and>
         length (skippedList (skippedSeqs (processEntries es c)))
           = unat (Sequence (snd low) - nextSequence c)"
proof -
  have ne: "es \<noteq> []" using low by auto
  obtain t e where lastx: "last es = (t, e)" by force
  let ?es1 = "butlast es"
  have split: "es = ?es1 @ [(t, e)]"
    using ne lastx by (metis append_butlast_last_id)
  have set_es: "set es = insert (t, e) (set ?es1)"
    by (subst split) simp
  have len1: "int (length ?es1) = CachePendingSeqMaxNum (options c)"
    using count ne by (cases es) auto
  have dist1: "distinct (map (\<lambda>x. Sequence (snd x)) ?es1)"
    and notin1: "Sequence e \<notin> (\<lambda>x. Sequence (snd x)) ` set ?es1"
    using dist by (subst (asm) split, simp)+
  have ahead1: "\<forall>x\<in>set ?es1. nextSequence c < Sequence (snd x) \<and> Sequence (snd x) \<notin> receivedSeqs c"
    using ahead set_es by blast
  obtain P where c1: "processEntries ?es1 c =
               c\<lparr>receivedSeqs := receivedSeqs c \<union> (\<lambda>x. Sequence (snd x)) ` set ?es1, pendingLogs := P\<rparr>"
    and sP: "sorted_wrt (<) (map Sequence P)"
    and setP: "set P = snd ` set ?es1"
    and lenP: "length P = length ?es1"
    using submit_pending [of c ?es1] enabled started empty ahead1 dist1 len1 by auto
  let ?c1 = "c\<lparr>receivedSeqs := receivedSeqs c \<union> (\<lambda>x. Sequence (snd x)) ` set ?es1, pendingLogs := P\<rparr>"
  let ?c2 = "?c1\<lparr>receivedSeqs := insert (Sequence e) (receivedSeqs ?c1),
                  pendingLogs := insort_key Sequence e (pendingLogs ?c1)\<rparr>"
  have e_ahead: "nextSequence c < Sequence e" and e_fresh: "Sequence e \<notin> receivedSeqs c"
    using ahead set_es by auto
  have fresh1: "Sequence e \<notin> receivedSeqs ?c1"
    using e_fresh notin1 by simp
  have "processEntry t e ?c1 =
          (if int (length (pendingLogs ?c1)) + 1 > CachePendingSeqMaxNum (options ?c1)
           then addPendingLogs t ?c2 else ({}, ?c2))"
    using defer_step [of ?c1 e t] enabled started e_ahead fresh1 by (simp add: Let_def)
  then have step: "processEntry t e ?c1 = addPendingLogs t ?c2"
    using lenP len1 by simp
  have result: "processEntries es c = snd (addPendingLogsLoop t {} ?c2)"
    by (subst split) (simp add: processEntries_snoc c1 step addPendingLogs_def)
  let ?P2 = "insort_key Sequence e P"
  have "Sequence e \<notin> Sequence ` set P"
    using notin1 setP by (auto simp add: image_iff)
  with sP have sP2: "sorted_wrt (<) (map Sequence ?P2)"
    by (rule sorted_wrt_insort_key)
  have setP2: "set ?P2 = snd ` set es"
    using setP set_es by (simp add: set_insort_key)
  have lenP2: "int (length ?P2) = CachePendingSeqMaxNum (options c) + 1"
    using lenP len1 by simp
  then have "?P2 \<noteq> []" using nonneg by auto
  then obtain h rest where hr: "?P2 = h # rest" by (cases ?P2) auto
  have h_in: "h \<in> snd ` set es" and rest_in: "set rest \<subseteq> snd ` set es"
    using setP2 hr by auto
  have "snd low \<in> set ?P2" using low setP2 by simp
  then have "Sequence h \<le> Sequence (snd low)"
    using sP2 hr by (auto simp add: less_imp_le)
  moreover have "Sequence (snd low) \<le> Sequence h"
    using least h_in by auto
  ultimately have h_low: "Sequence h = Sequence (snd low)" by simp
  have pending2: "pendingLogs ?c2 = h # rest" using hr by simp
  have sorted2: "sorted_wrt (<) (map Sequence (h # rest))" using sP2 hr by simp
  have over2: "int (length (h # rest)) > CachePendingSeqMaxNum (options ?c2)"
    using lenP2 hr by simp
  have bound2: "int (length rest) \<le> CachePendingSeqMaxNum (options ?c2)"
    using lenP2 hr by simp
  have ahead2: "nextSequence ?c2 \<le> Sequence h"
    using ahead h_in by (auto simp add: less_imp_le)
  have noSkipped2: "skippedList (skippedSeqs ?c2) = []"
    using noSkipped by simp
  have gap2: "\<forall>x\<in>set rest. Sequence x \<noteq> Sequence h + 1"
    using gap h_in rest_in by blast
  have recent2: "\<forall>x\<in>set rest. t - TimeReceived x < CachePendingSeqMaxWait (options ?c2)"
    using recent rest_in lastx by auto
  have seqs: "map seq (skippedList (skippedSeqs (processEntries es c)))
           = map word_of_nat [unat (nextSequence c) ..< unat (Sequence (snd low))]"
    using drain_overflow [OF pending2 sorted2 over2 bound2 ahead2 noSkipped2 gap2 recent2, of "{}"]
    by (simp add: result h_low)
  have "nextSequence c \<le> Sequence (snd low)"
    using ahead low by (auto simp add: less_imp_le)
  then have "unat (Sequence (snd low) - nextSequence c)
                = unat (Sequence (snd low)) - unat (nextSequence c)"
    by unat_arith
  moreover have "length (skippedList (skippedSeqs (processEntries es c)))
                   = length (map seq (skippedList (skippedSeqs (processEntries es c))))"
    by simp
  ultimately have "length (skippedList (skippedSeqs (processEntries es c)))
           = unat (Sequence (snd low) - nextSequence c)"
    by (simp only: seqs length_map length_upt)
  with seqs show ?thesis by blast
qed


theorem overflow_promotes_gap_witness:
  "map seq (skippedList (skippedSeqs
      (processEntries [(0, placeholder 2 0), (0, placeholder 4 0), (0, placeholder 6 0)]
         (initCache (testOptions 2) 0)))) = [1] \<and>
   length (skippedList (skippedSeqs
      (processEntries [(0, placeholder 2 0), (0, placeholder 4 0), (0, placeholder 6 0)]
         (initCache (testOptions 2) 0)))) = 1"
proof -
  let ?c = "initCache (testOptions 2) 0"
  let ?es = "[(0 :: time, placeholder 2 0), (0, placeholder 4 0), (0, placeholder 6 0)]"
  let ?low = "(0 :: time, placeholder 2 0)"
  have enabled: "\<not> logsDisabled ?c" and empty: "pendingLogs ?c = []"
    and started: "nextSequence ?c \<noteq> 0" and noSkipped: "skippedList (skippedSeqs ?c) = []"
    by (simp_all add: initCache_def setInitialSequence_def NewSkippedSequenceList_def)
  have opts: "CachePendingSeqMaxNum (options ?c) = 2"
    "CachePendingSeqMaxWait (options ?c) = 5 * 1000000000"
    by (simp_all add: initCache_def setInitialSequence_def testOptions_def
        DefaultCachePendingSeqMaxWait_def)
  have nx: "nextSequence ?c = 1" and rc: "receivedSeqs ?c = {}"
    by (simp_all add: initCache_def setInitialSequence_def)
  have count: "int (length ?es) = CachePendingSeqMaxNum (options ?c) + 1"
    and nonneg: "0 \<le> CachePendingSeqMaxNum (options ?c)"
    by (simp_all add: opts)
  have dist: "distinct (map (\<lambda>x. Sequence (snd x)) ?es)"
    by (simp add: placeholder_def)
  have ahead: "\<forall>x\<in>set ?es. nextSequence ?c < Sequence (snd x) \<and> Sequence (snd x) \<notin> receivedSeqs ?c"
    by (simp add: placeholder_def nx rc)
  have gap: "\<forall>x\<in>set ?es. \<forall>y\<in>set ?es. Sequence (snd y) \<noteq> Sequence (snd x) + 1"
    by (simp add: placeholder_def)
  have recent: "\<forall>x\<in>set ?es. fst (last ?es) - TimeReceived (snd x) < CachePendingSeqMaxWait (options ?c)"
    by (simp add: placeholder_def opts)
  have low: "?low \<in> set ?es"
    by simp
  have least: "\<forall>x\<in>set ?es. Sequence (snd ?low) \<le> Sequence (snd x)"
    by (simp add: placeholder_def)
  have "map seq (skippedList (skippedSeqs (processEntries ?es ?c)))
           = map word_of_nat [unat (nextSequence ?c) ..< unat (Sequence (snd ?low))] \<and>
        length (skippedList (skippedSeqs (processEntries ?es ?c)))
           = unat (Sequence (snd ?low) - nextSequence ?c)"
    using enabled empty started noSkipped count nonneg dist ahead gap recent low least
    by (rule overflow_promotes_gap)
  moreover have "map (word_of_nat :: nat \<Rightarrow> uint64) [Suc 0..<2] = [1]"
    by (simp add: upt_conv_Cons)
  ultimately show ?thesis
    by (simp add: nx placeholder_def)
qed


end
